theory Spec2Isabelle
  imports Main "HOL-Library.Sublist"
begin

section \<open>Reference records and the store\<close>

text \<open>
  The extension keeps a list of reference records in \<^verbatim>\<open>ReferenceDataManager\<close>
  (\<^verbatim>\<open>src/extension.ts\<close>) and mirrors it in one JSON file. The interface
  \<^verbatim>\<open>ReferenceItem\<close> declares the fields below; \<^verbatim>\<open>id\<close> and \<^verbatim>\<open>type\<close> carry a
  prime because the plain names are taken in HOL. Strings are \<^typ>\<open>string\<close>.
\<close>

datatype refType = File | FileSnippet | GlobalSnippet | Comment

record ReferenceItem =
  id' :: string
  type' :: refType
  title :: string
  filePath :: "string option"
  snippet :: "string option"
  comment :: "string option"
  createdAt :: string
  updatedAt :: string

text \<open>
  The argument of \<^verbatim>\<open>addReference\<close> has type
  \<^verbatim>\<open>Omit<ReferenceItem, 'id' | 'createdAt' | 'updatedAt'>\<close>.
\<close>

record ReferenceInput =
  inType :: refType
  inTitle :: string
  inFilePath :: "string option"
  inSnippet :: "string option"
  inComment :: "string option"

text \<open>
  What the Node runtime can throw at the store: a failing file operation and a
  \<^verbatim>\<open>JSON.parse\<close> that rejects its input. Lines written with \<^verbatim>\<open>console.error\<close>
  are kept in the state.
\<close>

datatype exn = IOError | SyntaxError

datatype logline = FailedToLoad exn | FailedToSave exn

text \<open>
  The backing file \<^verbatim>\<open>references.json\<close>: its content when it exists, whether reading
  and writing it succeed, and whether its directory exists or can be created.
\<close>

record disk =
  content :: "string option"
  readable :: bool
  writable :: bool
  directory :: bool

definition existsSync :: "disk \<Rightarrow> bool" where
  "existsSync d = (content d \<noteq> None)"

definition readFileSync :: "disk \<Rightarrow> exn + string" where
  "readFileSync d =
     (case content d of
        None \<Rightarrow> Inl IOError
      | Some s \<Rightarrow> if readable d then Inr s else Inl IOError)"

definition writeFileSync :: "disk \<Rightarrow> string \<Rightarrow> exn + disk" where
  "writeFileSync d s = (if writable d then Inr (d\<lparr>content := Some s\<rparr>) else Inl IOError)"


text \<open>
  The array \<^verbatim>\<open>this.references\<close> holds JavaScript objects, and
  \<^verbatim>\<open>updateReferenceTitle\<close> assigns to the fields of one of them in place. The
  array is therefore a list of addresses into a store of objects, so that two entries of
  the array may be one and the same object. Addresses the array does not mention hold
  objects nobody looks at.
\<close>

type_synonym addr = nat

record store =
  references :: "addr list"
  objects :: "addr \<Rightarrow> ReferenceItem"
  storage :: disk
  console :: "logline list"

definition items :: "store \<Rightarrow> ReferenceItem list" where
  "items st = map (objects st) (references st)"

definition ids :: "store \<Rightarrow> string list" where
  "ids st = map (\<lambda>r. id' (objects st r)) (references st)"

text \<open>
  \<^verbatim>\<open>saveReferences\<close>: write \<^verbatim>\<open>JSON.stringify(this.references, null, 2)\<close>; a failing
  write is caught and logged. \<^verbatim>\<open>JSON.stringify\<close> belongs to the runtime and is the
  parameter \<open>stringify\<close>.
\<close>

definition saveReferences :: "(ReferenceItem list \<Rightarrow> string) \<Rightarrow> store \<Rightarrow> store" where
  "saveReferences stringify st =
     (case writeFileSync (storage st) (stringify (items st)) of
        Inr d \<Rightarrow> st\<lparr>storage := d\<rparr>
      | Inl e \<Rightarrow> st\<lparr>console := console st @ [FailedToSave e]\<rparr>)"

text \<open>
  \<^verbatim>\<open>loadReferences\<close>: when the file exists, read it and assign what \<^verbatim>\<open>JSON.parse\<close>
  returns; anything thrown on the way is caught, logged, and the array is reset to
  \<^verbatim>\<open>[]\<close>. \<^verbatim>\<open>JSON.parse\<close> is the parameter \<open>parse\<close>, at the type the source
  declares for its result (the source does not check the shape of the document). The
  parsed objects are new: they take the addresses \<open>0, 1, \<dots>\<close>.
\<close>

definition assignParsed :: "ReferenceItem list \<Rightarrow> store \<Rightarrow> store" where
  "assignParsed vals st =
     st\<lparr>references := [0..<length vals],
        objects := (\<lambda>a. if a < length vals then vals ! a else objects st a)\<rparr>"

definition loadBody :: "(string \<Rightarrow> exn + ReferenceItem list) \<Rightarrow> store \<Rightarrow> exn + store" where
  "loadBody parse st =
     (if existsSync (storage st) then
        (case readFileSync (storage st) of
           Inl e \<Rightarrow> Inl e
         | Inr data \<Rightarrow>
            (case parse data of
               Inl e \<Rightarrow> Inl e
             | Inr vals \<Rightarrow> Inr (assignParsed vals st)))
      else Inr st)"

definition loadReferences :: "(string \<Rightarrow> exn + ReferenceItem list) \<Rightarrow> store \<Rightarrow> store" where
  "loadReferences parse st =
     (case loadBody parse st of
        Inr st' \<Rightarrow> st'
      | Inl e \<Rightarrow> st\<lparr>references := [], console := console st @ [FailedToLoad e]\<rparr>)"

text \<open>
  The constructor creates the storage directory, which may throw, and then calls
  \<^verbatim>\<open>loadReferences\<close> on the store whose \<^verbatim>\<open>references\<close> the field initialiser
  has set to \<^verbatim>\<open>[]\<close>.
\<close>

definition noObject :: ReferenceItem where
  "noObject = \<lparr>id' = [], type' = Comment, title = [], filePath = None, snippet = None,
     comment = None, createdAt = [], updatedAt = []\<rparr>"

definition initialStore :: "disk \<Rightarrow> store" where
  "initialStore d = \<lparr>references = [], objects = (\<lambda>_. noObject), storage = d, console = []\<rparr>"


subsection \<open>addReference\<close>

text \<open>
  The clock and the random source are read from the environment:
  \<^verbatim>\<open>new Date().toISOString()\<close>, \<^verbatim>\<open>Date.now()\<close> and
  \<^verbatim>\<open>Math.random().toString(36).substr(2, 9)\<close>.
\<close>

record environment =
  isoNow :: string
  msNow :: nat
  randomSuffix :: string

fun decimal :: "nat \<Rightarrow> string" where
  "decimal n =
     (if n < 10 then [''0123456789'' ! n]
      else decimal (n div 10) @ [''0123456789'' ! (n mod 10)])"

declare decimal.simps [simp del]

definition generateId :: "environment \<Rightarrow> string" where
  "generateId env = ''ref-'' @ decimal (msNow env) @ ''-'' @ randomSuffix env"

text \<open>A new object gets an address that no entry of the array has.\<close>

definition newAddr :: "store \<Rightarrow> addr" where
  "newAddr st = Suc (fold max (references st) 0)"

definition addReference ::
  "(ReferenceItem list \<Rightarrow> string) \<Rightarrow> environment \<Rightarrow> ReferenceInput \<Rightarrow> store \<Rightarrow> store \<times> addr" where
  "addReference stringify env reference st =
     (let now = isoNow env;
          newReference = \<lparr>id' = generateId env, type' = inType reference,
            title = inTitle reference, filePath = inFilePath reference,
            snippet = inSnippet reference, comment = inComment reference,
            createdAt = now, updatedAt = now\<rparr>;
          a = newAddr st;
          st' = st\<lparr>references := references st @ [a],
                   objects := (objects st)(a := newReference)\<rparr>
      in (saveReferences stringify st', a))"

subsection \<open>updateOrder, deleteReference, updateReferenceTitle\<close>

text \<open>
  \<^verbatim>\<open>Array.prototype.find\<close>, \<^verbatim>\<open>filter\<close> and \<^verbatim>\<open>includes\<close> are \<^const>\<open>find\<close>,
  \<^const>\<open>filter\<close> and membership in \<^const>\<open>set\<close>; a \<^verbatim>\<open>forEach\<close> that pushes is a
  \<^const>\<open>fold\<close> that appends.
\<close>

definition findById :: "store \<Rightarrow> string \<Rightarrow> addr option" where
  "findById st i = find (\<lambda>r. id' (objects st r) = i) (references st)"

definition updateOrder :: "(ReferenceItem list \<Rightarrow> string) \<Rightarrow> string list \<Rightarrow> store \<Rightarrow> store" where
  "updateOrder stringify newOrder st =
     (let newReferences = [];
          newReferences =
            fold (\<lambda>i acc. case findById st i of Some ref \<Rightarrow> acc @ [ref] | None \<Rightarrow> acc)
              newOrder newReferences;
          newReferences =
            fold (\<lambda>ref acc.
                    if id' (objects st ref) \<notin> set newOrder then acc @ [ref] else acc)
              (references st) newReferences
      in saveReferences stringify (st\<lparr>references := newReferences\<rparr>))"

definition deleteReference :: "(ReferenceItem list \<Rightarrow> string) \<Rightarrow> string \<Rightarrow> store \<Rightarrow> store" where
  "deleteReference stringify i st =
     saveReferences stringify
       (st\<lparr>references := filter (\<lambda>r. id' (objects st r) \<noteq> i) (references st)\<rparr>)"

definition updateReferenceTitle ::
  "(ReferenceItem list \<Rightarrow> string) \<Rightarrow> environment \<Rightarrow> string \<Rightarrow> string \<Rightarrow> store \<Rightarrow> store" where
  "updateReferenceTitle stringify env i newTitle st =
     (case findById st i of
        Some reference \<Rightarrow>
          saveReferences stringify
            (st\<lparr>objects := (objects st)
               (reference := (objects st reference)\<lparr>title := newTitle, updatedAt := isoNow env\<rparr>)\<rparr>)
      | None \<Rightarrow> st)"

subsection \<open>Sequences of operations\<close>

text \<open>The four mutating calls of the store, and a sequence of them run from left to right.\<close>

datatype operation =
  Add environment ReferenceInput
| Delete string
| Rename environment string string
| Reorder "string list"

fun applyOperation :: "(ReferenceItem list \<Rightarrow> string) \<Rightarrow> operation \<Rightarrow> store \<Rightarrow> store" where
  "applyOperation stringify (Add env reference) st = fst (addReference stringify env reference st)"
| "applyOperation stringify (Delete i) st = deleteReference stringify i st"
| "applyOperation stringify (Rename env i newTitle) st =
     updateReferenceTitle stringify env i newTitle st"
| "applyOperation stringify (Reorder newOrder) st = updateOrder stringify newOrder st"

definition applyOperations ::
  "(ReferenceItem list \<Rightarrow> string) \<Rightarrow> operation list \<Rightarrow> store \<Rightarrow> store" where
  "applyOperations stringify ops st = fold (applyOperation stringify) ops st"

section \<open>Locating a snippet in the workspace\<close>

text \<open>
  \<^verbatim>\<open>jumpToGlobalSnippet\<close> opens the files of the workspace one after the other and
  looks for the snippet with \<^verbatim>\<open>String.prototype.indexOf\<close>: the least index at which
  the snippet starts, or \<open>-1\<close>. A text is a list of code units of any type \<open>'c\<close>.
\<close>

fun indexOfFrom :: "'c list \<Rightarrow> 'c list \<Rightarrow> int \<Rightarrow> int" where
  "indexOfFrom [] frag k = (if frag = [] then k else - 1)"
| "indexOfFrom (c # cs) frag k =
     (if prefix frag (c # cs) then k else indexOfFrom cs frag (k + 1))"

definition indexOf :: "'c list \<Rightarrow> 'c list \<Rightarrow> int" where
  "indexOf text frag = indexOfFrom text frag 0"

text \<open>
  The variables of the loop, the lines it prints, and the list of files handed to
  \<^verbatim>\<open>openTextDocument\<close> so far, which records in which order and how often files are
  opened.
\<close>

datatype 'f scanline = SearchFileCount nat | CannotOpenFile 'f exn | MatchCount nat

record ('f, 'p) scan =
  matchCount :: nat
  matchFile :: "'f option"
  matchStartPosition :: "'p option"
  matchEndPosition :: "'p option"
  opened :: "'f list"
  printed :: "'f scanline list"

text \<open>
  The loop over \<^verbatim>\<open>files\<close>. \<^verbatim>\<open>openTextDocument\<close> may reject, which the
  \<^verbatim>\<open>catch\<close> inside the loop turns into a printed line and \<^verbatim>\<open>continue\<close>; the
  \<^verbatim>\<open>break\<close> after the second match ends the loop. \<^verbatim>\<open>positionAt\<close> is the editor's
  conversion of an offset of a document into a position.
\<close>

fun scanFiles ::
  "('f \<Rightarrow> exn + 'c list) \<Rightarrow> ('c list \<Rightarrow> int \<Rightarrow> 'p) \<Rightarrow> 'c list \<Rightarrow> 'f list \<Rightarrow>
     ('f, 'p) scan \<Rightarrow> ('f, 'p) scan" where
  "scanFiles openTextDocument positionAt snip [] s = s"
| "scanFiles openTextDocument positionAt snip (file # files) s =
     (let s1 = s\<lparr>opened := opened s @ [file]\<rparr> in
      case openTextDocument file of
        Inl err \<Rightarrow>
          scanFiles openTextDocument positionAt snip files
            (s1\<lparr>printed := printed s1 @ [CannotOpenFile file err]\<rparr>)
      | Inr text \<Rightarrow>
          (let index = indexOf text snip in
           if index \<noteq> - 1 then
             (let s2 = s1\<lparr>matchCount := matchCount s1 + 1, matchFile := Some file,
                    matchStartPosition := Some (positionAt text index),
                    matchEndPosition := Some (positionAt text (index + int (length snip)))\<rparr>
              in if matchCount s2 > 1 then s2
                 else scanFiles openTextDocument positionAt snip files s2)
           else scanFiles openTextDocument positionAt snip files s1))"

text \<open>
  After the loop: exactly one match with file and positions set selects the range in that
  file (\<open>UniqueMatch\<close>); no match warns that the snippet was not found (\<open>NoMatch\<close>);
  anything else warns that the snippet is no longer unique (\<open>AmbiguousMatch\<close>).
\<close>

datatype ('f, 'p) outcome = UniqueMatch 'f 'p 'p | NoMatch | AmbiguousMatch

definition startScan :: "'f list \<Rightarrow> ('f, 'p) scan" where
  "startScan files =
     \<lparr>matchCount = 0, matchFile = None, matchStartPosition = None, matchEndPosition = None,
      opened = [], printed = [SearchFileCount (length files)]\<rparr>"

definition classify :: "('f, 'p) scan \<Rightarrow> ('f, 'p) outcome" where
  "classify s =
     (case (matchFile s, matchStartPosition s, matchEndPosition s) of
        (Some f, Some a, Some b) \<Rightarrow>
          if matchCount s = 1 then UniqueMatch f a b
          else if matchCount s = 0 then NoMatch else AmbiguousMatch
      | _ \<Rightarrow> if matchCount s = 0 then NoMatch else AmbiguousMatch)"

definition jumpToGlobalSnippet ::
  "('f \<Rightarrow> exn + 'c list) \<Rightarrow> ('c list \<Rightarrow> int \<Rightarrow> 'p) \<Rightarrow> 'c list \<Rightarrow> 'f list \<Rightarrow>
     ('f, 'p) outcome \<times> ('f, 'p) scan" where
  "jumpToGlobalSnippet openTextDocument positionAt snip files =
     (let s = scanFiles openTextDocument positionAt snip files (startScan files);
          s' = s\<lparr>printed := printed s @ [MatchCount (matchCount s)]\<rparr>
      in (classify s', s'))"

text \<open>
  A member of the corpus contains the fragment when it can be opened and the fragment is a
  contiguous part of its text.
\<close>

definition containsFragment :: "('f \<Rightarrow> exn + 'c list) \<Rightarrow> 'c list \<Rightarrow> 'f \<Rightarrow> bool" where
  "containsFragment openTextDocument frag file =
     (case openTextDocument file of Inl _ \<Rightarrow> False | Inr text \<Rightarrow> sublist frag text)"

text \<open>The match variables of the loop, without what it printed or opened.\<close>

definition matchState :: "('f, 'p) scan \<Rightarrow> nat \<times> 'f option \<times> 'p option \<times> 'p option" where
  "matchState s = (matchCount s, matchFile s, matchStartPosition s, matchEndPosition s)"

section \<open>The JSON document\<close>

text \<open>
  \<^verbatim>\<open>JSON.stringify(value, null, 2)\<close> on an array of reference records, as ECMAScript
  defines it: a string is quoted with the double quote, the backslash and the control
  characters escaped, a property whose value is \<^verbatim>\<open>undefined\<close> is left out, and
  arrays and objects are laid out one element per line, indented by two spaces per
  level. The properties come in the order in which the callers of \<^verbatim>\<open>addReference\<close>
  create them: those of the argument, then \<^verbatim>\<open>id\<close>, \<^verbatim>\<open>createdAt\<close>,
  \<^verbatim>\<open>updatedAt\<close>.
\<close>

definition hexDigit :: "nat \<Rightarrow> char" where
  "hexDigit n = ''0123456789abcdef'' ! n"

definition quoteChar :: "char \<Rightarrow> string" where
  "quoteChar c =
     (if c = CHR 0x22 then [CHR 0x5C, CHR 0x22]
      else if c = CHR 0x5C then [CHR 0x5C, CHR 0x5C]
      else if c = CHR 0x08 then [CHR 0x5C, CHR ''b'']
      else if c = CHR 0x0C then [CHR 0x5C, CHR ''f'']
      else if c = CHR 0x0A then [CHR 0x5C, CHR ''n'']
      else if c = CHR 0x0D then [CHR 0x5C, CHR ''r'']
      else if c = CHR 0x09 then [CHR 0x5C, CHR ''t'']
      else if (of_char c :: nat) < 32 then
        [CHR 0x5C, CHR ''u'', CHR ''0'', CHR ''0'',
         hexDigit (of_char c div 16), hexDigit (of_char c mod 16)]
      else [c])"

definition quoteJSONString :: "string \<Rightarrow> string" where
  "quoteJSONString s = CHR 0x22 # concat (map quoteChar s) @ [CHR 0x22]"

fun joinWith :: "string \<Rightarrow> string list \<Rightarrow> string" where
  "joinWith sep [] = []"
| "joinWith sep [x] = x"
| "joinWith sep (x # y # ys) = x @ sep @ joinWith sep (y # ys)"

definition typeName :: "refType \<Rightarrow> string" where
  "typeName t =
     (case t of File \<Rightarrow> ''file'' | FileSnippet \<Rightarrow> ''file-snippet''
      | GlobalSnippet \<Rightarrow> ''global-snippet'' | Comment \<Rightarrow> ''comment'')"

definition optionalProperty :: "string \<Rightarrow> string option \<Rightarrow> (string \<times> string) list" where
  "optionalProperty k v = (case v of None \<Rightarrow> [] | Some x \<Rightarrow> [(k, x)])"

definition properties :: "ReferenceItem \<Rightarrow> (string \<times> string) list" where
  "properties r =
     [(''type'', typeName (type' r)), (''title'', title r)] @
     optionalProperty ''filePath'' (filePath r) @
     optionalProperty ''snippet'' (snippet r) @
     optionalProperty ''comment'' (comment r) @
     [(''id'', id' r), (''createdAt'', createdAt r), (''updatedAt'', updatedAt r)]"

definition serializeProperty :: "string \<times> string \<Rightarrow> string" where
  "serializeProperty p = quoteJSONString (fst p) @ '': '' @ quoteJSONString (snd p)"

definition serializeObject :: "ReferenceItem \<Rightarrow> string" where
  "serializeObject r =
     ''{'' @ [CHR 0x0A] @ ''    '' @
     joinWith ('','' @ [CHR 0x0A] @ ''    '') (map serializeProperty (properties r)) @
     [CHR 0x0A] @ ''  }''"

definition JSON_stringify :: "ReferenceItem list \<Rightarrow> string" where
  "JSON_stringify rs =
     (if rs = [] then ''[]''
      else ''['' @ [CHR 0x0A] @ ''  '' @
           joinWith ('','' @ [CHR 0x0A] @ ''  '') (map serializeObject rs) @
           [CHR 0x0A] @ '']'')"

text \<open>
  \<^verbatim>\<open>JSON.parse\<close>, read at the type \<^verbatim>\<open>ReferenceItem[]\<close> that the source declares
  for the loaded value: white space between the tokens, strings with their escapes,
  objects whose properties are strings and come in any order (the last of two equal keys
  wins), and an array of such objects. Anything else throws \<^verbatim>\<open>SyntaxError\<close> here;
  this includes documents that are JSON of another shape (the source would load them
  unchecked), and escapes of a code unit above \<open>00ff\<close>, which a string of \<^typ>\<open>char\<close>
  cannot hold.
\<close>

definition isWhitespace :: "char \<Rightarrow> bool" where
  "isWhitespace c \<longleftrightarrow> c = CHR 0x20 \<or> c = CHR 0x09 \<or> c = CHR 0x0A \<or> c = CHR 0x0D"

definition skipWhitespace :: "string \<Rightarrow> string" where
  "skipWhitespace s = dropWhile isWhitespace s"

definition hexValue :: "char \<Rightarrow> nat option" where
  "hexValue c =
     (let n = (of_char c :: nat) in
      if 48 \<le> n \<and> n \<le> 57 then Some (n - 48)
      else if 97 \<le> n \<and> n \<le> 102 then Some (n - 87)
      else if 65 \<le> n \<and> n \<le> 70 then Some (n - 55)
      else None)"

definition unescape :: "char \<Rightarrow> char option" where
  "unescape e =
     (if e = CHR 0x22 then Some (CHR 0x22)
      else if e = CHR 0x5C then Some (CHR 0x5C)
      else if e = CHR ''/'' then Some (CHR ''/'')
      else if e = CHR ''b'' then Some (CHR 0x08)
      else if e = CHR ''f'' then Some (CHR 0x0C)
      else if e = CHR ''n'' then Some (CHR 0x0A)
      else if e = CHR ''r'' then Some (CHR 0x0D)
      else if e = CHR ''t'' then Some (CHR 0x09)
      else None)"

definition consChar :: "char \<Rightarrow> (string \<times> string) option \<Rightarrow> (string \<times> string) option" where
  "consChar c r = (case r of None \<Rightarrow> None | Some (s, rest) \<Rightarrow> Some (c # s, rest))"

fun parseChars :: "string \<Rightarrow> (string \<times> string) option" where
  "parseChars [] = None"
| "parseChars (c # cs) =
     (if c = CHR 0x22 then Some ([], cs)
      else if c = CHR 0x5C then
        (case cs of
           [] \<Rightarrow> None
         | e # es \<Rightarrow>
             if e = CHR ''u'' then
               (case es of
                  h1 # h2 # h3 # h4 # rest \<Rightarrow>
                    (case (hexValue h1, hexValue h2, hexValue h3, hexValue h4) of
                       (Some a, Some b, Some c', Some d) \<Rightarrow>
                         if a = 0 \<and> b = 0 then consChar (char_of (16 * c' + d)) (parseChars rest)
                         else None
                     | _ \<Rightarrow> None)
                | _ \<Rightarrow> None)
             else (case unescape e of
                     None \<Rightarrow> None
                   | Some x \<Rightarrow> consChar x (parseChars es)))
      else if (of_char c :: nat) < 32 then None
      else consChar c (parseChars cs))"

definition parseString :: "string \<Rightarrow> (string \<times> string) option" where
  "parseString s =
     (case s of [] \<Rightarrow> None | c # cs \<Rightarrow> if c = CHR 0x22 then parseChars cs else None)"

text \<open>The parsers consume input, which is what makes the recursion below end.\<close>

lemma consChar_shorter:
  "consChar c r = Some (x, rest) \<Longrightarrow> \<exists>x'. r = Some (x', rest)"
  by (auto simp: consChar_def split: option.splits)

lemma parseChars_shorter: "parseChars s = Some (x, rest) \<Longrightarrow> length rest < length s"
proof (induction s arbitrary: x rule: parseChars.induct)
  case 1
  then show ?case by simp
next
  case (2 c cs)
  show ?case
  proof (cases "c = CHR 0x22")
    case True
    with 2 show ?thesis by auto
  next
    case notq: False
    show ?thesis
    proof (cases "c = CHR 0x5C")
      case False
      with notq 2 show ?thesis
        by (auto split: if_splits dest!: consChar_shorter)
    next
      case True
      with notq 2 show ?thesis
        by (auto split: if_splits list.splits option.splits dest!: consChar_shorter) fastforce+
    qed
  qed
qed

lemma parseString_shorter: "parseString s = Some (x, rest) \<Longrightarrow> length rest < length s"
  by (auto simp: parseString_def split: list.splits if_splits dest: parseChars_shorter)

lemma skipWhitespace_length: "length (skipWhitespace s) \<le> length s"
  by (simp add: skipWhitespace_def length_dropWhile_le)

function parseMembers :: "string \<Rightarrow> ((string \<times> string) list \<times> string) option" where
  "parseMembers s =
     (case parseString s of
        None \<Rightarrow> None
      | Some (k, s1) \<Rightarrow>
          (case skipWhitespace s1 of
             [] \<Rightarrow> None
           | c # s2 \<Rightarrow>
               if c \<noteq> CHR '':'' then None
               else
                 (case parseString (skipWhitespace s2) of
                    None \<Rightarrow> None
                  | Some (v, s3) \<Rightarrow>
                      (case skipWhitespace s3 of
                         [] \<Rightarrow> None
                       | d # s4 \<Rightarrow>
                           if d = CHR '','' then
                             (case parseMembers (skipWhitespace s4) of
                                None \<Rightarrow> None
                              | Some (kvs, s5) \<Rightarrow> Some ((k, v) # kvs, s5))
                           else if d = CHR ''}'' then Some ([(k, v)], s4)
                           else None))))"
  by pat_completeness auto

termination parseMembers
proof (relation "measure length", goal_cases)
  case 1
  show ?case by simp
next
  case (2 s x2 k s1 c s2 x2a v s3 d s4)
  have "length s1 < length s" using 2 by (auto dest: parseString_shorter)
  moreover have "length (c # s2) \<le> length s1"
    using skipWhitespace_length [of s1] 2 by simp
  moreover have "length s3 < length (skipWhitespace s2)"
    using 2 by (auto dest: parseString_shorter)
  moreover have "length (skipWhitespace s2) \<le> length s2" by (rule skipWhitespace_length)
  moreover have "length (d # s4) \<le> length s3"
    using skipWhitespace_length [of s3] 2 by simp
  moreover have "length (skipWhitespace s4) \<le> length s4" by (rule skipWhitespace_length)
  ultimately show ?case by simp
qed


declare parseMembers.simps [simp del]

definition parseObject :: "string \<Rightarrow> ((string \<times> string) list \<times> string) option" where
  "parseObject s =
     (case s of
        [] \<Rightarrow> None
      | c # s1 \<Rightarrow>
          if c \<noteq> CHR ''{'' then None
          else (case skipWhitespace s1 of
                  [] \<Rightarrow> None
                | d # s2 \<Rightarrow> if d = CHR ''}'' then Some ([], s2) else parseMembers (d # s2)))"

definition typeOfName :: "string \<Rightarrow> refType option" where
  "typeOfName n =
     (if n = ''file'' then Some File
      else if n = ''file-snippet'' then Some FileSnippet
      else if n = ''global-snippet'' then Some GlobalSnippet
      else if n = ''comment'' then Some Comment
      else None)"

definition toReferenceItem :: "(string \<times> string) list \<Rightarrow> ReferenceItem option" where
  "toReferenceItem kvs =
     (let get = map_of (rev kvs) in
      case (get ''id'', Option.bind (get ''type'') typeOfName, get ''title'',
            get ''createdAt'', get ''updatedAt'') of
        (Some i, Some t, Some ti, Some c, Some u) \<Rightarrow>
          Some \<lparr>id' = i, type' = t, title = ti, filePath = get ''filePath'',
            snippet = get ''snippet'', comment = get ''comment'', createdAt = c, updatedAt = u\<rparr>
      | _ \<Rightarrow> None)"

lemma parseMembers_shorter: "parseMembers s = Some (kvs, rest) \<Longrightarrow> length rest < length s"
proof (induction s arbitrary: kvs rule: parseMembers.induct)
  case (1 s)
  from "1.prems" obtain k s1 where a: "parseString s = Some (k, s1)"
    by (subst (asm) parseMembers.simps) (auto split: option.splits)
  from "1.prems" a obtain s2 where b: "skipWhitespace s1 = CHR '':'' # s2"
    by (subst (asm) parseMembers.simps) (auto split: list.splits if_splits)
  from "1.prems" a b obtain v s3 where c: "parseString (skipWhitespace s2) = Some (v, s3)"
    by (subst (asm) parseMembers.simps) (auto split: option.splits)
  from "1.prems" a b c obtain d s4 where d: "skipWhitespace s3 = d # s4"
    by (subst (asm) parseMembers.simps) (auto split: list.splits)
  have l1: "length s1 < length s" using a by (rule parseString_shorter)
  have l2: "length s2 < length s1" using skipWhitespace_length [of s1] b by simp
  have l3: "length s3 < length s2"
    using parseString_shorter [OF c] skipWhitespace_length [of s2] by simp
  have l4: "length s4 < length s3" using skipWhitespace_length [of s3] d by simp
  show ?case
  proof (cases "d = CHR '',''")
    case True
    with "1.prems" a b c d obtain kvs' where
      e: "parseMembers (skipWhitespace s4) = Some (kvs', rest)"
      by (subst (asm) parseMembers.simps) (auto split: option.splits)
    have "length rest < length (skipWhitespace s4)"
      using "1.IH" [OF a refl b _ c refl d True e] by simp
    then show ?thesis using skipWhitespace_length [of s4] l1 l2 l3 l4 by simp
  next
    case False
    with "1.prems" a b c d have "rest = s4"
      by (subst (asm) parseMembers.simps) (auto split: if_splits)
    then show ?thesis using l1 l2 l3 l4 by simp
  qed
qed

lemma parseObject_shorter: "parseObject s = Some (kvs, rest) \<Longrightarrow> length rest < length s"
proof -
  assume p: "parseObject s = Some (kvs, rest)"
  then obtain s1 where s: "s = CHR ''{'' # s1"
    by (auto simp: parseObject_def split: list.splits if_splits)
  from p s obtain d s2 where d: "skipWhitespace s1 = d # s2"
    by (auto simp: parseObject_def split: list.splits)
  have l: "length (d # s2) \<le> length s1" using skipWhitespace_length [of s1] d by simp
  show ?thesis
  proof (cases "d = CHR ''}''")
    case True
    with p s d have "rest = s2" by (simp add: parseObject_def)
    with l s show ?thesis by simp
  next
    case False
    with p s d have "parseMembers (d # s2) = Some (kvs, rest)" by (simp add: parseObject_def)
    then have "length rest < length (d # s2)" by (rule parseMembers_shorter)
    with l s show ?thesis by simp
  qed
qed

function parseElements :: "string \<Rightarrow> (ReferenceItem list \<times> string) option" where
  "parseElements s =
     (case parseObject s of
        None \<Rightarrow> None
      | Some (kvs, s1) \<Rightarrow>
          (case toReferenceItem kvs of
             None \<Rightarrow> None
           | Some r \<Rightarrow>
               (case skipWhitespace s1 of
                  [] \<Rightarrow> None
                | d # s2 \<Rightarrow>
                    if d = CHR '','' then
                      (case parseElements (skipWhitespace s2) of
                         None \<Rightarrow> None
                       | Some (rs, s3) \<Rightarrow> Some (r # rs, s3))
                    else if d = CHR '']'' then Some ([r], s2)
                    else None)))"
  by pat_completeness auto

termination parseElements
proof (relation "measure length", goal_cases)
  case 1
  show ?case by simp
next
  case (2 s x2 kvs s1 r d s2)
  have "length s1 < length s" using 2 by (auto dest: parseObject_shorter)
  moreover have "length (d # s2) \<le> length s1"
    using skipWhitespace_length [of s1] 2 by simp
  moreover have "length (skipWhitespace s2) \<le> length s2" by (rule skipWhitespace_length)
  ultimately show ?case by simp
qed

declare parseElements.simps [simp del]

definition JSON_parse :: "string \<Rightarrow> exn + ReferenceItem list" where
  "JSON_parse s =
     (case skipWhitespace s of
        [] \<Rightarrow> Inl SyntaxError
      | c # s1 \<Rightarrow>
          if c \<noteq> CHR ''['' then Inl SyntaxError
          else (case skipWhitespace s1 of
                  [] \<Rightarrow> Inl SyntaxError
                | d # s2 \<Rightarrow>
                    (case (if d = CHR '']'' then Some ([], s2) else parseElements (d # s2)) of
                       None \<Rightarrow> Inl SyntaxError
                     | Some (rs, s3) \<Rightarrow>
                         if skipWhitespace s3 = [] then Inr rs else Inl SyntaxError)))"

section \<open>Sample data\<close>

text \<open>
  Two records with different ids, one more record that shares the id of the first, a
  store over them and a storage file that does not exist yet.
\<close>

definition itemA :: ReferenceItem where
  "itemA = \<lparr>id' = ''ref-1-a'', type' = File, title = ''a.ts'', filePath = Some ''/w/a.ts'',
     snippet = None, comment = None, createdAt = ''t1'', updatedAt = ''t1''\<rparr>"

definition itemB :: ReferenceItem where
  "itemB = \<lparr>id' = ''ref-2-b'', type' = Comment, title = ''note'', filePath = None,
     snippet = None, comment = None, createdAt = ''t2'', updatedAt = ''t2''\<rparr>"

definition itemA2 :: ReferenceItem where
  "itemA2 = \<lparr>id' = ''ref-1-a'', type' = GlobalSnippet, title = ''foo'', filePath = None,
     snippet = Some ''foo()'', comment = None, createdAt = ''t3'', updatedAt = ''t3''\<rparr>"

definition sampleObjects :: "addr \<Rightarrow> ReferenceItem" where
  "sampleObjects = ((\<lambda>_. noObject)(0 := itemA, 1 := itemB, 2 := itemA2))"

definition noFile :: disk where
  "noFile = \<lparr>content = None, readable = True, writable = True, directory = True\<rparr>"

definition sampleStore :: store where
  "sampleStore = \<lparr>references = [0, 1], objects = sampleObjects, storage = noFile, console = []\<rparr>"

definition sharedIdStore :: store where
  "sharedIdStore =
     \<lparr>references = [0, 2, 1], objects = sampleObjects, storage = noFile, console = []\<rparr>"

definition sampleEnv :: environment where
  "sampleEnv = \<lparr>isoNow = ''t9'', msNow = 42, randomSuffix = ''k3x''\<rparr>"

definition laterEnv :: environment where
  "laterEnv = \<lparr>isoNow = ''t10'', msNow = 1712345678901, randomSuffix = ''k3x''\<rparr>"

definition sampleInput :: ReferenceInput where
  "sampleInput = \<lparr>inType = File, inTitle = ''a.ts'', inFilePath = Some ''/w/a.ts'',
     inSnippet = None, inComment = None\<rparr>"

definition sampleOperations :: "operation list" where
  "sampleOperations =
     [Add sampleEnv sampleInput, Reorder [''ref-2-b''], Rename sampleEnv ''ref-1-a'' ''main'',
      Delete ''ref-2-b'']"

text \<open>
  A workspace of three files that can be opened (any other file cannot), positions that
  are the offsets themselves, and a storage file whose content is not JSON.
\<close>

definition sampleWorkspace :: "string \<Rightarrow> exn + string" where
  "sampleWorkspace f =
     (if f = ''a.ts'' then Inr ''let x = foo();''
      else if f = ''b.ts'' then Inr ''foo()''
      else if f = ''c.ts'' then Inr ''bar()''
      else Inl IOError)"

definition offsetPosition :: "string \<Rightarrow> int \<Rightarrow> int" where
  "offsetPosition doc k = k"


section \<open>Facts about saving\<close>

lemma saveReferences_references: "references (saveReferences stringify st) = references st"
  by (simp add: saveReferences_def split: sum.splits)

lemma saveReferences_objects: "objects (saveReferences stringify st) = objects st"
  by (simp add: saveReferences_def split: sum.splits)

lemma saveReferences_items: "items (saveReferences stringify st) = items st"
  by (simp add: items_def saveReferences_references saveReferences_objects)

lemma saveReferences_writable:
  "writable (storage st) \<Longrightarrow>
     content (storage (saveReferences stringify st)) = Some (stringify (items st)) \<and>
     console (saveReferences stringify st) = console st"
  by (simp add: saveReferences_def writeFileSync_def)

lemma saveReferences_not_writable:
  "\<not> writable (storage st) \<Longrightarrow>
     storage (saveReferences stringify st) = storage st \<and>
     console (saveReferences stringify st) = console st @ [FailedToSave IOError]"
  by (simp add: saveReferences_def writeFileSync_def)

section \<open>Reordering\<close>

lemma fold_push_option:
  "fold (\<lambda>i acc. case f i of Some r \<Rightarrow> acc @ [r] | None \<Rightarrow> acc) xs acc = acc @ List.map_filter f xs"
  by (induction xs arbitrary: acc) (auto split: option.splits)

lemma fold_push_if:
  "fold (\<lambda>r acc. if P r then acc @ [r] else acc) xs acc = acc @ filter P xs"
  by (induction xs arbitrary: acc) auto

lemma updateOrder_references:
  "references (updateOrder stringify newOrder st) =
     List.map_filter (findById st) newOrder @
     filter (\<lambda>r. id' (objects st r) \<notin> set newOrder) (references st)"
  by (simp add: updateOrder_def saveReferences_references fold_push_option fold_push_if)

lemma updateOrder_objects: "objects (updateOrder stringify newOrder st) = objects st"
  by (simp add: updateOrder_def saveReferences_objects)

lemma findById_Some:
  "findById st i = Some r \<Longrightarrow> r \<in> set (references st) \<and> id' (objects st r) = i"
  by (auto simp: findById_def find_Some_iff)

lemma findById_None: "findById st i = None \<longleftrightarrow> i \<notin> set (ids st)"
  by (auto simp: findById_def ids_def find_None_iff)

lemma named_ids:
  "map (\<lambda>r. id' (objects st r)) (List.map_filter (findById st) newOrder) =
     filter (\<lambda>i. i \<in> set (ids st)) newOrder"
proof (induction newOrder)
  case Nil
  show ?case by simp
next
  case (Cons i newOrder)
  show ?case
  proof (cases "findById st i")
    case None
    then have "i \<notin> set (ids st)" by (simp add: findById_None)
    with None Cons show ?thesis by simp
  next
    case (Some r)
    then have "i \<in> set (ids st)" using findById_None [of st i] by simp
    with Some Cons show ?thesis by (simp add: findById_Some)
  qed
qed

lemma named_length:
  "length (List.map_filter (findById st) newOrder) =
     length (filter (\<lambda>i. i \<in> set (ids st)) newOrder)"
  using named_ids [of st newOrder, THEN arg_cong, of length] by simp

lemma named_subset: "set (List.map_filter (findById st) newOrder) \<subseteq> set (references st)"
  by (auto simp: List.map_filter_def dest: findById_Some)

lemma named_member:
  assumes "inj_on (\<lambda>r. id' (objects st r)) (set (references st))"
    and "r \<in> set (references st)" and "id' (objects st r) \<in> set newOrder"
  shows "r \<in> set (List.map_filter (findById st) newOrder)"
proof -
  have "id' (objects st r) \<in> set (ids st)" using assms(2) by (auto simp: ids_def)
  then obtain r' where r': "findById st (id' (objects st r)) = Some r'"
    using findById_None [of st "id' (objects st r)"] by auto
  then have "r' \<in> set (references st)" "id' (objects st r') = id' (objects st r)"
    using findById_Some by blast+
  with assms(1,2) have "r' = r" by (auto dest: inj_onD)
  with r' assms(3) show ?thesis by (force simp: List.map_filter_def)
qed

text \<open>
  C1 (amended). In every store in which no two different records share an id, and for
  every id sequence, \<^verbatim>\<open>updateOrder\<close> produces an order that starts with the records
  named by the sequence, in the order of the sequence (ids that no record has are
  skipped), followed by every record the sequence does not mention, in their previous
  relative order; no record of the store is lost, and the records themselves are not
  touched.
\<close>

theorem updateOrder_reorders:
  assumes "inj_on (\<lambda>r. id' (objects st r)) (set (references st))"
  shows "map (\<lambda>r. id' (objects st r))
           (take (length (filter (\<lambda>i. i \<in> set (ids st)) newOrder))
              (references (updateOrder stringify newOrder st))) =
           filter (\<lambda>i. i \<in> set (ids st)) newOrder \<and>
         set (take (length (filter (\<lambda>i. i \<in> set (ids st)) newOrder))
              (references (updateOrder stringify newOrder st))) \<subseteq> set (references st) \<and>
         drop (length (filter (\<lambda>i. i \<in> set (ids st)) newOrder))
              (references (updateOrder stringify newOrder st)) =
           filter (\<lambda>r. id' (objects st r) \<notin> set newOrder) (references st) \<and>
         set (references st) \<subseteq> set (references (updateOrder stringify newOrder st)) \<and>
         objects (updateOrder stringify newOrder st) = objects st"
proof -
  define st' where "st' = updateOrder stringify newOrder st"
  define n where "n = length (filter (\<lambda>i. i \<in> set (ids st)) newOrder)"
  let ?named = "List.map_filter (findById st) newOrder"
  let ?rest = "filter (\<lambda>r. id' (objects st r) \<notin> set newOrder) (references st)"
  have refs: "references st' = ?named @ ?rest"
    by (simp add: st'_def updateOrder_references)
  have len: "length ?named = n" by (simp add: n_def named_length)
  have t: "take n (references st') = ?named" and d: "drop n (references st') = ?rest"
    using refs len by simp_all
  have kept: "set (references st) \<subseteq> set (references st')"
  proof
    fix r assume r: "r \<in> set (references st)"
    show "r \<in> set (references st')"
    proof (cases "id' (objects st r) \<in> set newOrder")
      case True
      with assms(1) r have "r \<in> set ?named" by (rule named_member)
      then show ?thesis by (simp add: refs)
    next
      case False
      with r show ?thesis by (simp add: refs)
    qed
  qed
  have "map (\<lambda>r. id' (objects st r)) (take n (references st')) =
           filter (\<lambda>i. i \<in> set (ids st)) newOrder"
    by (simp add: t named_ids)
  moreover have "set (take n (references st')) \<subseteq> set (references st)"
    by (simp add: t named_subset)
  moreover have "objects st' = objects st" by (simp add: st'_def updateOrder_objects)
  ultimately show ?thesis using d kept unfolding st'_def n_def by blast
qed


text \<open>
  On the sample store, asking for \<open>ref-2-b\<close> and an unknown id moves the second record to
  the front and keeps the first.
\<close>

theorem updateOrder_reorders_witness:
  "inj_on (\<lambda>r. id' (objects sampleStore r)) (set (references sampleStore)) \<and>
   references (updateOrder JSON_stringify [''ref-2-b'', ''ref-7-q''] sampleStore) = [1, 0] \<and>
   set (references sampleStore) \<subseteq>
     set (references (updateOrder JSON_stringify [''ref-2-b'', ''ref-7-q''] sampleStore))"
proof -
  have h: "inj_on (\<lambda>r. id' (objects sampleStore r)) (set (references sampleStore))"
    by (simp add: sampleStore_def sampleObjects_def itemA_def itemB_def)
  have "references (updateOrder JSON_stringify [''ref-2-b'', ''ref-7-q''] sampleStore) = [1, 0]"
    by (simp add: updateOrder_def findById_def sampleStore_def sampleObjects_def itemA_def
        itemB_def saveReferences_references)
  then show ?thesis
    using h updateOrder_reorders [OF h, of "[''ref-2-b'', ''ref-7-q'']" JSON_stringify] by simp
qed

text \<open>
  C1 as stated, for every store: when two different records share an id, naming that id
  keeps only the first of them. The record at address 2 is in the store before the call
  and not after it.
\<close>

theorem updateOrder_loses_record_counterexample:
  "2 \<in> set (references sharedIdStore) \<and>
   2 \<notin> set (references (updateOrder JSON_stringify [''ref-1-a''] sharedIdStore))"
  by (simp add: updateOrder_def findById_def sharedIdStore_def sampleObjects_def itemA_def
      itemB_def itemA2_def saveReferences_references)

section \<open>Deleting\<close>

lemma deleteReference_references:
  "references (deleteReference stringify i st) =
     filter (\<lambda>r. id' (objects st r) \<noteq> i) (references st)"
  by (simp add: deleteReference_def saveReferences_references)

lemma deleteReference_objects: "objects (deleteReference stringify i st) = objects st"
  by (simp add: deleteReference_def saveReferences_objects)

text \<open>
  C9. Deleting an id that no record of the store has leaves the array, the records and so
  the collection as they were; \<^verbatim>\<open>deleteReference\<close> returns a store in every case, a
  failing write being caught and logged in \<^const>\<open>saveReferences\<close>.
\<close>

theorem deleteReference_absent_id:
  assumes "i \<notin> set (ids st)"
  shows "references (deleteReference stringify i st) = references st \<and>
         objects (deleteReference stringify i st) = objects st \<and>
         items (deleteReference stringify i st) = items st"
proof -
  have "\<forall>r \<in> set (references st). id' (objects st r) \<noteq> i"
    using assms by (auto simp: ids_def)
  then have "filter (\<lambda>r. id' (objects st r) \<noteq> i) (references st) = references st"
    by (simp add: filter_id_conv)
  then show ?thesis
    by (simp add: items_def deleteReference_references deleteReference_objects)
qed

theorem deleteReference_absent_id_witness:
  "''ref-7-q'' \<notin> set (ids sampleStore) \<and>
   references (deleteReference JSON_stringify ''ref-7-q'' sampleStore) = [0, 1] \<and>
   items (deleteReference JSON_stringify ''ref-7-q'' sampleStore) = [itemA, itemB]"
proof -
  have h: "''ref-7-q'' \<notin> set (ids sampleStore)"
    by (simp add: ids_def sampleStore_def sampleObjects_def itemA_def itemB_def)
  have "references sampleStore = [0, 1]" "items sampleStore = [itemA, itemB]"
    by (simp_all add: items_def sampleStore_def sampleObjects_def)
  then show ?thesis
    using h deleteReference_absent_id [OF h, of JSON_stringify] by simp
qed

text \<open>
  C10. After \<^verbatim>\<open>deleteReference\<close> no record of the collection has the given id, also
  when several records had it, and the records with other ids are all kept, in their
  previous relative order.
\<close>

theorem deleteReference_removes_all:
  "i \<notin> set (ids (deleteReference stringify i st)) \<and>
   references (deleteReference stringify i st) =
     filter (\<lambda>r. id' (objects st r) \<noteq> i) (references st) \<and>
   (\<forall>r \<in> set (references st).
      id' (objects st r) \<noteq> i \<longrightarrow> r \<in> set (references (deleteReference stringify i st))) \<and>
   objects (deleteReference stringify i st) = objects st"
  by (auto simp: ids_def deleteReference_references deleteReference_objects)

theorem deleteReference_removes_all_witness:
  "''ref-1-a'' \<notin> set (ids (deleteReference JSON_stringify ''ref-1-a'' sharedIdStore)) \<and>
   references (deleteReference JSON_stringify ''ref-1-a'' sharedIdStore) = [1]"
proof -
  have "filter (\<lambda>r. id' (objects sharedIdStore r) \<noteq> ''ref-1-a'') (references sharedIdStore) = [1]"
    by (simp add: sharedIdStore_def sampleObjects_def itemA_def itemB_def itemA2_def)
  then show ?thesis
    using deleteReference_removes_all [of "''ref-1-a''" JSON_stringify sharedIdStore] by simp
qed

section \<open>Adding\<close>

lemma fold_max_ge: "(m::nat) \<le> fold max rs m"
proof (induction rs arbitrary: m)
  case Nil
  show ?case by simp
next
  case (Cons a rs)
  have "m \<le> max a m" by simp
  also have "\<dots> \<le> fold max rs (max a m)" by (rule Cons.IH)
  finally show ?case by simp
qed

lemma newAddr_bound: "r \<in> set rs \<Longrightarrow> r \<le> fold max rs (m::nat)"
proof (induction rs arbitrary: m)
  case Nil
  then show ?case by simp
next
  case (Cons x rs)
  show ?case
  proof (cases "r = x")
    case True
    have "x \<le> max x m" by simp
    also have "\<dots> \<le> fold max rs (max x m)" by (rule fold_max_ge)
    finally show ?thesis using True by simp
  next
    case False
    with Cons show ?thesis by simp
  qed
qed

lemma newAddr_fresh: "newAddr st \<notin> set (references st)"
  using newAddr_bound [of "newAddr st" "references st" 0] by (auto simp: newAddr_def)

text \<open>The decimal numeral determines the number, and the id determines clock and suffix.\<close>

lemma decimal_digits: "set (decimal n) \<subseteq> set ''0123456789''"
proof (induction n rule: decimal.induct)
  case (1 n)
  have d: "''0123456789'' ! k \<in> set ''0123456789''" if "k < 10" for k
    using that by (intro nth_mem) simp
  show ?case
  proof (cases "n < 10")
    case True
    then show ?thesis using d [of n] by (subst decimal.simps) simp
  next
    case False
    have "n mod 10 < 10" by simp
    then show ?thesis
      using False "1.IH" d [of "n mod 10"] by (subst decimal.simps) simp
  qed
qed

lemma decimal_no_dash: "CHR ''-'' \<notin> set (decimal n)"
  using decimal_digits [of n] by auto

lemma digit_value: "k < 10 \<Longrightarrow> (of_char (''0123456789'' ! k) :: nat) - 48 = k"
proof -
  assume k: "k < 10"
  have "\<forall>j \<in> set [0..<10]. (of_char (''0123456789'' ! j) :: nat) - 48 = j"
    by code_simp
  with k show ?thesis by simp
qed

lemma decimal_value: "fold (\<lambda>c a. 10 * a + (of_char c - 48)) (decimal n) (0::nat) = n"
proof (induction n rule: decimal.induct)
  case (1 n)
  show ?case
  proof (cases "n < 10")
    case True
    then show ?thesis by (subst decimal.simps) (simp add: digit_value)
  next
    case False
    have "n mod 10 < 10" by simp
    then show ?thesis
      using False "1.IH" by (subst decimal.simps) (simp add: digit_value)
  qed
qed

lemma decimal_inject: "decimal m = decimal n \<Longrightarrow> m = n"
proof -
  assume eq: "decimal m = decimal n"
  have "m = fold (\<lambda>c a. 10 * a + (of_char c - 48)) (decimal m) (0::nat)"
    by (simp only: decimal_value)
  also have "\<dots> = fold (\<lambda>c a. 10 * a + (of_char c - 48)) (decimal n) (0::nat)"
    by (simp only: eq)
  also have "\<dots> = n" by (simp only: decimal_value)
  finally show ?thesis .
qed

lemma generateId_inject:
  assumes "generateId env = generateId env2"
  shows "msNow env = msNow env2 \<and> randomSuffix env = randomSuffix env2"
proof -
  let ?P = "\<lambda>c. c \<noteq> CHR ''-''"
  have split: "takeWhile ?P (decimal n @ CHR ''-'' # r) = decimal n \<and>
      dropWhile ?P (decimal n @ CHR ''-'' # r) = CHR ''-'' # r" for n r
  proof -
    have p: "\<And>x. x \<in> set (decimal n) \<Longrightarrow> x \<noteq> CHR ''-''"
      using decimal_no_dash [of n] by auto
    show ?thesis
      by (simp add: takeWhile_append2 [OF p] dropWhile_append2 [OF p])
  qed
  from assms have eq: "decimal (msNow env) @ CHR ''-'' # randomSuffix env =
      decimal (msNow env2) @ CHR ''-'' # randomSuffix env2"
    by (simp add: generateId_def)
  have "decimal (msNow env) = decimal (msNow env2)"
    using split [of "msNow env" "randomSuffix env"] split [of "msNow env2" "randomSuffix env2"] eq
    by metis
  moreover have "randomSuffix env = randomSuffix env2"
    using split [of "msNow env" "randomSuffix env"] split [of "msNow env2" "randomSuffix env2"] eq
    by (metis list.inject)
  ultimately show ?thesis by (simp add: decimal_inject)
qed

text \<open>
  C4. For every argument, \<^verbatim>\<open>addReference\<close> builds a new record whose id is generated
  at the call: it is \<open>ref-\<close>, the milliseconds of the clock in decimal, a dash and the
  random suffix, so that two calls produce the same id only when clock and suffix
  coincide. Its \<^verbatim>\<open>createdAt\<close> and \<^verbatim>\<open>updatedAt\<close> are the same current timestamp and
  its other fields are those of the argument; the record is appended at the end of the
  array and returned. Nothing is compared with the records already there: the collection
  afterwards is the old collection followed by the new record, also when an equal record
  is already in it.
\<close>

theorem addReference_appends:
  "references (fst (addReference stringify env reference st)) =
     references st @ [snd (addReference stringify env reference st)] \<and>
   snd (addReference stringify env reference st) \<notin> set (references st) \<and>
   objects (fst (addReference stringify env reference st))
       (snd (addReference stringify env reference st)) =
     \<lparr>id' = ''ref-'' @ decimal (msNow env) @ ''-'' @ randomSuffix env,
      type' = inType reference, title = inTitle reference,
      filePath = inFilePath reference, snippet = inSnippet reference,
      comment = inComment reference, createdAt = isoNow env, updatedAt = isoNow env\<rparr> \<and>
   items (fst (addReference stringify env reference st)) =
     items st @
     [\<lparr>id' = ''ref-'' @ decimal (msNow env) @ ''-'' @ randomSuffix env,
       type' = inType reference, title = inTitle reference,
       filePath = inFilePath reference, snippet = inSnippet reference,
       comment = inComment reference, createdAt = isoNow env, updatedAt = isoNow env\<rparr>] \<and>
   (id' (objects (fst (addReference stringify env reference st))
          (snd (addReference stringify env reference st))) =
    id' (objects (fst (addReference stringify2 env2 reference2 st2))
          (snd (addReference stringify2 env2 reference2 st2))) \<longleftrightarrow>
    msNow env = msNow env2 \<and> randomSuffix env = randomSuffix env2)"
proof -
  have m: "map ((objects st)(newAddr st := x)) (references st) = map (objects st) (references st)"
    for x
    using newAddr_fresh [of st] by (intro map_cong) auto
  have new: "id' (objects (fst (addReference f e r s)) (snd (addReference f e r s))) =
      generateId e" for f e r s
    by (simp add: addReference_def Let_def saveReferences_objects)
  have sep: "generateId env = generateId env2 \<longleftrightarrow>
      msNow env = msNow env2 \<and> randomSuffix env = randomSuffix env2"
    using generateId_inject [of env env2] by (auto simp: generateId_def)
  show ?thesis
    using newAddr_fresh [of st] m
    by (simp only: new sep)
      (simp add: addReference_def Let_def saveReferences_references saveReferences_objects
        items_def generateId_def)
qed

text \<open>
  Adding the same argument twice at the same instant gives two equal records, both kept;
  adding it at a later instant gives a record with another id.
\<close>

theorem addReference_appends_witness:
  "items (fst (addReference JSON_stringify sampleEnv sampleInput
       (fst (addReference JSON_stringify sampleEnv sampleInput sampleStore)))) =
     [itemA, itemB,
      \<lparr>id' = ''ref-42-k3x'', type' = File, title = ''a.ts'', filePath = Some ''/w/a.ts'',
       snippet = None, comment = None, createdAt = ''t9'', updatedAt = ''t9''\<rparr>,
      \<lparr>id' = ''ref-42-k3x'', type' = File, title = ''a.ts'', filePath = Some ''/w/a.ts'',
       snippet = None, comment = None, createdAt = ''t9'', updatedAt = ''t9''\<rparr>] \<and>
   items (fst (addReference JSON_stringify laterEnv sampleInput sampleStore)) =
     [itemA, itemB,
      \<lparr>id' = ''ref-1712345678901-k3x'', type' = File, title = ''a.ts'',
       filePath = Some ''/w/a.ts'', snippet = None, comment = None, createdAt = ''t10'',
       updatedAt = ''t10''\<rparr>] \<and>
   id' (objects (fst (addReference JSON_stringify sampleEnv sampleInput sampleStore))
         (snd (addReference JSON_stringify sampleEnv sampleInput sampleStore))) \<noteq>
   id' (objects (fst (addReference JSON_stringify laterEnv sampleInput sampleStore))
         (snd (addReference JSON_stringify laterEnv sampleInput sampleStore)))"
proof -
  have i: "items sampleStore = [itemA, itemB]"
    by (simp add: items_def sampleStore_def sampleObjects_def)
  have d: "decimal 42 = ''42''" "decimal 1712345678901 = ''1712345678901''"
    by (simp_all add: decimal.simps)
  have ne: "msNow sampleEnv \<noteq> msNow laterEnv"
    by (simp add: sampleEnv_def laterEnv_def)
  show ?thesis
    using i d ne
      addReference_appends [of JSON_stringify sampleEnv sampleInput sampleStore
        JSON_stringify laterEnv sampleInput sampleStore]
      addReference_appends [of JSON_stringify sampleEnv sampleInput
        "fst (addReference JSON_stringify sampleEnv sampleInput sampleStore)"]
      addReference_appends [of JSON_stringify laterEnv sampleInput sampleStore]
    by (simp add: sampleEnv_def sampleInput_def laterEnv_def)
qed

section \<open>Renaming\<close>

lemma findById_first:
  "findById st i = Some r \<Longrightarrow>
     \<exists>k < length (references st). references st ! k = r \<and>
       (\<forall>j < k. id' (objects st (references st ! j)) \<noteq> i)"
  by (auto simp: findById_def find_Some_iff)

text \<open>
  C5 (amended). If a record with the id exists, \<^verbatim>\<open>updateReferenceTitle\<close> sets the
  title of the first such record and refreshes its \<^verbatim>\<open>updatedAt\<close>, leaves its id, type,
  file path, snippet, comment and \<^verbatim>\<open>createdAt\<close> as they were, leaves every other
  record and the order unchanged, and the collection is saved after the call (the file
  holds it whenever the write succeeds). If no record has the id, the store is left
  exactly as it was: nothing changes and nothing is written.
\<close>

theorem updateReferenceTitle_effect:
  "(i \<in> set (ids st) \<longrightarrow>
      (\<exists>r \<in> set (references st).
         findById st i = Some r \<and> id' (objects st r) = i \<and>
         objects (updateReferenceTitle stringify env i newTitle st) r =
           (objects st r)\<lparr>title := newTitle, updatedAt := isoNow env\<rparr> \<and>
         (\<forall>b. b \<noteq> r \<longrightarrow>
            objects (updateReferenceTitle stringify env i newTitle st) b = objects st b)) \<and>
      references (updateReferenceTitle stringify env i newTitle st) = references st \<and>
      (writable (storage st) \<longrightarrow>
         content (storage (updateReferenceTitle stringify env i newTitle st)) =
           Some (stringify (items (updateReferenceTitle stringify env i newTitle st))))) \<and>
   (i \<notin> set (ids st) \<longrightarrow> updateReferenceTitle stringify env i newTitle st = st)"
proof (cases "findById st i")
  case None
  then have "i \<notin> set (ids st)" by (simp add: findById_None)
  with None show ?thesis by (simp add: updateReferenceTitle_def)
next
  case (Some r)
  then have r: "r \<in> set (references st)" "id' (objects st r) = i"
    using findById_Some by blast+
  then have "i \<in> set (ids st)" by (auto simp: ids_def)
  moreover have "writable (storage st) \<Longrightarrow>
      content (storage (updateReferenceTitle stringify env i newTitle st)) =
        Some (stringify (items (updateReferenceTitle stringify env i newTitle st)))"
    using Some
    by (simp add: updateReferenceTitle_def saveReferences_items saveReferences_writable)
  ultimately show ?thesis
    using Some r
    by (auto simp: updateReferenceTitle_def saveReferences_references saveReferences_objects)
qed

theorem updateReferenceTitle_effect_witness:
  "''ref-2-b'' \<in> set (ids sampleStore) \<and> writable (storage sampleStore) \<and>
   items (updateReferenceTitle JSON_stringify sampleEnv ''ref-2-b'' ''memo'' sampleStore) =
     [itemA, itemB\<lparr>title := ''memo'', updatedAt := ''t9''\<rparr>] \<and>
   content (storage (updateReferenceTitle JSON_stringify sampleEnv ''ref-2-b'' ''memo'' sampleStore)) =
     Some (JSON_stringify [itemA, itemB\<lparr>title := ''memo'', updatedAt := ''t9''\<rparr>]) \<and>
   ''ref-7-q'' \<notin> set (ids sampleStore) \<and>
   updateReferenceTitle JSON_stringify sampleEnv ''ref-7-q'' ''memo'' sampleStore = sampleStore"
proof -
  have h1: "''ref-2-b'' \<in> set (ids sampleStore)" and h2: "''ref-7-q'' \<notin> set (ids sampleStore)"
    and h3: "writable (storage sampleStore)"
    by (simp_all add: ids_def sampleStore_def sampleObjects_def itemA_def itemB_def noFile_def)
  have "items (updateReferenceTitle JSON_stringify sampleEnv ''ref-2-b'' ''memo'' sampleStore) =
     [itemA, itemB\<lparr>title := ''memo'', updatedAt := ''t9''\<rparr>]"
    by (simp add: updateReferenceTitle_def findById_def saveReferences_references
        saveReferences_objects items_def sampleStore_def sampleObjects_def itemA_def itemB_def sampleEnv_def)
  then show ?thesis
    using h1 h2 h3
      updateReferenceTitle_effect [of "''ref-2-b''" sampleStore JSON_stringify sampleEnv "''memo''"]
      updateReferenceTitle_effect [of "''ref-7-q''" sampleStore JSON_stringify sampleEnv "''memo''"]
    by simp
qed

text \<open>
  C5 as stated says the collection is persisted in both cases. On a store just
  constructed over a missing file, renaming an unknown id writes nothing: the file still
  does not exist afterwards, although writing would succeed. (\<^verbatim>\<open>deleteReference\<close> with
  an unknown id does write, see \<open>deleteReference_persists\<close>.)
\<close>

theorem updateReferenceTitle_absent_not_persisted_counterexample:
  "writable (storage (initialStore noFile)) \<and>
   content (storage (updateReferenceTitle JSON_stringify sampleEnv ''ref-7-q'' ''memo''
       (initialStore noFile))) \<noteq>
     Some (JSON_stringify (items (updateReferenceTitle JSON_stringify sampleEnv ''ref-7-q'' ''memo''
       (initialStore noFile))))"
  by (simp add: updateReferenceTitle_def findById_def initialStore_def noFile_def)

lemma deleteReference_persists:
  "writable (storage st) \<Longrightarrow>
     content (storage (deleteReference stringify i st)) =
       Some (stringify (items (deleteReference stringify i st)))"
  by (simp add: deleteReference_def saveReferences_items saveReferences_writable)

section \<open>Searching a text\<close>

lemma indexOfFrom_ge: "indexOfFrom text frag k \<noteq> - 1 \<Longrightarrow> 0 \<le> k \<Longrightarrow> k \<le> indexOfFrom text frag k"
  by (induction "text" arbitrary: k) (auto split: if_splits, force)

lemma indexOfFrom_shift: "0 \<le> k \<Longrightarrow> indexOfFrom text frag k = (if indexOfFrom text frag 0 = - 1 then - 1 else indexOfFrom text frag 0 + k)"
proof (induction "text" arbitrary: k)
  case Nil
  then show ?case by simp
next
  case (Cons c cs)
  show ?case
  proof (cases "prefix frag (c # cs)")
    case True
    with Cons.prems show ?thesis by simp
  next
    case False
    have a: "indexOfFrom cs frag (k + 1) = (if indexOfFrom cs frag 0 = - 1 then - 1 else indexOfFrom cs frag 0 + (k + 1))"
      using Cons.prems by (intro Cons.IH) simp
    have b: "indexOfFrom cs frag 1 = (if indexOfFrom cs frag 0 = - 1 then - 1 else indexOfFrom cs frag 0 + 1)"
      using Cons.IH [of 1] by simp
    have c: "indexOfFrom cs frag 0 \<noteq> - 1 \<Longrightarrow> 0 \<le> indexOfFrom cs frag 0"
      using indexOfFrom_ge [of cs frag 0] by simp
    show ?thesis using False a b c Cons.prems by auto
  qed
qed

text \<open>The index found is a natural number \<open>n\<close> at which the fragment starts, and the least one.\<close>

lemma indexOf_found:
  "indexOf text frag \<noteq> - 1 \<Longrightarrow>
     \<exists>n. indexOf text frag = int n \<and> n + length frag \<le> length text \<and>
         take (length frag) (drop n text) = frag \<and>
         (\<forall>j < n. take (length frag) (drop j text) \<noteq> frag)"
  unfolding indexOf_def
proof (induction "text")
  case Nil
  then show ?case by (auto split: if_splits)
next
  case (Cons c cs)
  show ?case
  proof (cases "prefix frag (c # cs)")
    case True
    then obtain zs where zs: "c # cs = frag @ zs" by (auto simp: prefix_def)
    have "length (c # cs) = length frag + length zs" by (simp add: zs)
    then have "take (length frag) (c # cs) = frag" "length frag \<le> length (c # cs)"
      using zs by simp_all
    with True show ?thesis by (intro exI [of _ 0]) simp
  next
    case False
    then have nf: "take (length frag) (c # cs) \<noteq> frag"
      by (metis take_is_prefix)
    have sh: "indexOfFrom cs frag 1 = (if indexOfFrom cs frag 0 = - 1 then - 1 else indexOfFrom cs frag 0 + 1)"
      using indexOfFrom_shift [of 1 cs frag] by simp
    from False Cons.prems have "indexOfFrom cs frag 1 \<noteq> - 1" by simp
    with sh have ne: "indexOfFrom cs frag 0 \<noteq> - 1" by (auto split: if_splits)
    from Cons.IH [OF ne] obtain n where n: "indexOfFrom cs frag 0 = int n"
      "n + length frag \<le> length cs" "take (length frag) (drop n cs) = frag"
      "\<forall>j < n. take (length frag) (drop j cs) \<noteq> frag" by blast
    have "\<forall>j < Suc n. take (length frag) (drop j (c # cs)) \<noteq> frag"
    proof (intro allI impI)
      fix j assume "j < Suc n"
      then show "take (length frag) (drop j (c # cs)) \<noteq> frag"
        using nf n(4) by (cases j) auto
    qed
    moreover have "indexOfFrom (c # cs) frag 0 = int (Suc n)"
      using False sh ne n(1) by simp
    ultimately show ?thesis using n(2,3) by (intro exI [of _ "Suc n"]) simp
  qed
qed

lemma indexOf_sublist: "indexOf text frag \<noteq> - 1 \<longleftrightarrow> sublist frag text"
  unfolding indexOf_def
proof (induction "text")
  case Nil
  show ?case by auto
next
  case (Cons c cs)
  have sh: "indexOfFrom cs frag 1 = (if indexOfFrom cs frag 0 = - 1 then - 1 else indexOfFrom cs frag 0 + 1)"
    using indexOfFrom_shift [of 1 cs frag] by simp
  have ge: "indexOfFrom cs frag 0 \<noteq> - 1 \<Longrightarrow> 0 \<le> indexOfFrom cs frag 0"
    using indexOfFrom_ge [of cs frag 0] by simp
  have "indexOfFrom cs frag 1 \<noteq> - 1 \<longleftrightarrow> sublist frag cs"
    using sh ge Cons.IH by auto
  then show ?case by (auto simp: sublist_Cons_right)
qed


section \<open>The scan\<close>

lemma containsFragment_Inr:
  "openTextDocument fl = Inr doc \<Longrightarrow>
     containsFragment openTextDocument frag fl \<longleftrightarrow> indexOf doc frag \<noteq> - 1"
  by (simp add: containsFragment_def indexOf_sublist)

lemma containsFragment_Inl:
  "openTextDocument fl = Inl e \<Longrightarrow> \<not> containsFragment openTextDocument frag fl"
  by (simp add: containsFragment_def)


lemma scan_none:
  "filter (containsFragment openTextDocument snip) files = [] \<Longrightarrow>
     matchState (scanFiles openTextDocument positionAt snip files s) = matchState s \<and>
     opened (scanFiles openTextDocument positionAt snip files s) = opened s @ files"
proof (induction files arbitrary: s)
  case Nil
  show ?case by simp
next
  case (Cons fl files)
  from Cons.prems have nf: "\<not> containsFragment openTextDocument snip fl"
    and rest: "filter (containsFragment openTextDocument snip) files = []"
    by (auto split: if_splits)
  show ?case
  proof (cases "openTextDocument fl")
    case (Inl e)
    then show ?thesis using Cons.IH [OF rest] by (simp add: matchState_def)
  next
    case (Inr doc)
    with nf have "indexOf doc snip = - 1" by (simp add: containsFragment_Inr)
    with Inr show ?thesis using Cons.IH [OF rest] by (simp add: matchState_def)
  qed
qed

lemma scan_more:
  "filter (containsFragment openTextDocument snip) files \<noteq> [] \<Longrightarrow> 1 \<le> matchCount s \<Longrightarrow>
     2 \<le> matchCount (scanFiles openTextDocument positionAt snip files s)"
proof (induction files arbitrary: s)
  case Nil
  then show ?case by simp
next
  case (Cons fl files)
  show ?case
  proof (cases "openTextDocument fl")
    case (Inl e)
    then have "\<not> containsFragment openTextDocument snip fl" by (rule containsFragment_Inl)
    with Cons.prems have "filter (containsFragment openTextDocument snip) files \<noteq> []" by simp
    then show ?thesis using Inl Cons.prems(2) by (simp add: Cons.IH)
  next
    case (Inr doc)
    show ?thesis
    proof (cases "indexOf doc snip = - 1")
      case True
      with Inr have "\<not> containsFragment openTextDocument snip fl"
        by (simp add: containsFragment_Inr)
      with Cons.prems have "filter (containsFragment openTextDocument snip) files \<noteq> []" by simp
      then show ?thesis using Inr True Cons.prems(2) by (simp add: Cons.IH)
    next
      case False
      with Inr Cons.prems(2) show ?thesis by (simp add: Let_def)
    qed
  qed
qed

lemma scan_one:
  "filter (containsFragment openTextDocument snip) files = [m] \<Longrightarrow> matchCount s = 0 \<Longrightarrow>
     \<exists>doc. openTextDocument m = Inr doc \<and> indexOf doc snip \<noteq> - 1 \<and>
       matchState (scanFiles openTextDocument positionAt snip files s) =
         (1, Some m, Some (positionAt doc (indexOf doc snip)),
          Some (positionAt doc (indexOf doc snip + int (length snip))))"
proof (induction files arbitrary: s)
  case Nil
  then show ?case by simp
next
  case (Cons fl files)
  show ?case
  proof (cases "containsFragment openTextDocument snip fl")
    case False
    with Cons.prems have rest: "filter (containsFragment openTextDocument snip) files = [m]"
      by simp
    show ?thesis
    proof (cases "openTextDocument fl")
      case (Inl e)
      then show ?thesis using Cons.IH [OF rest] Cons.prems(2) by simp
    next
      case (Inr doc)
      with False have "indexOf doc snip = - 1" by (simp add: containsFragment_Inr)
      with Inr show ?thesis using Cons.IH [OF rest] Cons.prems(2) by simp
    qed
  next
    case True
    with Cons.prems have m: "fl = m"
      and rest: "filter (containsFragment openTextDocument snip) files = []" by simp_all
    from True obtain doc where doc: "openTextDocument fl = Inr doc"
      by (auto simp: containsFragment_def split: sum.splits)
    with True have found: "indexOf doc snip \<noteq> - 1" by (simp add: containsFragment_Inr)
    show ?thesis
      using doc found m Cons.prems(2) scan_none [OF rest, of positionAt]
      by (simp add: Let_def matchState_def)
  qed
qed

lemma scan_many:
  "2 \<le> length (filter (containsFragment openTextDocument snip) files) \<Longrightarrow> matchCount s = 0 \<Longrightarrow>
     2 \<le> matchCount (scanFiles openTextDocument positionAt snip files s)"
proof (induction files arbitrary: s)
  case Nil
  then show ?case by simp
next
  case (Cons fl files)
  show ?case
  proof (cases "containsFragment openTextDocument snip fl")
    case False
    with Cons.prems have rest: "2 \<le> length (filter (containsFragment openTextDocument snip) files)"
      by simp
    show ?thesis
    proof (cases "openTextDocument fl")
      case (Inl e)
      then show ?thesis using Cons.IH [OF rest] Cons.prems(2) by simp
    next
      case (Inr doc)
      with False have "indexOf doc snip = - 1" by (simp add: containsFragment_Inr)
      with Inr show ?thesis using Cons.IH [OF rest] Cons.prems(2) by simp
    qed
  next
    case True
    with Cons.prems have rest: "filter (containsFragment openTextDocument snip) files \<noteq> []"
      by auto
    from True obtain doc where doc: "openTextDocument fl = Inr doc"
      by (auto simp: containsFragment_def split: sum.splits)
    with True have found: "indexOf doc snip \<noteq> - 1" by (simp add: containsFragment_Inr)
    show ?thesis
      using doc found Cons.prems(2) scan_more [OF rest, of _ positionAt]
      by (simp add: Let_def)
  qed
qed

lemma classify_matchState:
  "matchState s = (c, Some f, Some a, Some b) \<Longrightarrow>
     classify s = (if c = 1 then UniqueMatch f a b else if c = 0 then NoMatch else AmbiguousMatch)"
  by (simp add: classify_def matchState_def)

lemma classify_count:
  "matchCount s \<noteq> 1 \<Longrightarrow> classify s = (if matchCount s = 0 then NoMatch else AmbiguousMatch)"
  by (simp add: classify_def split: option.splits)

lemma matchState_printed: "matchState (s\<lparr>printed := p\<rparr>) = matchState s"
  by (simp add: matchState_def)

lemma matchCount_startScan: "matchCount (startScan files) = 0"
  by (simp add: startScan_def)

text \<open>
  C2. The scan sorts its result by the number of members of the corpus that contain the
  fragment as a contiguous part of their text: none gives \<open>NoMatch\<close>; exactly one gives
  \<open>UniqueMatch\<close> with that member and the positions of the offsets \<open>n\<close> and
  \<open>n + length frag\<close>, where \<open>n\<close> is the index of the first occurrence of the fragment in
  the text of the member; two or more give \<open>AmbiguousMatch\<close>.
\<close>

theorem jumpToGlobalSnippet_classifies:
  "(filter (containsFragment openTextDocument frag) files = [] \<longrightarrow>
      fst (jumpToGlobalSnippet openTextDocument positionAt frag files) = NoMatch) \<and>
   (\<forall>m. filter (containsFragment openTextDocument frag) files = [m] \<longrightarrow>
      (\<exists>doc n. openTextDocument m = Inr doc \<and> n + length frag \<le> length doc \<and>
         take (length frag) (drop n doc) = frag \<and>
         (\<forall>j < n. take (length frag) (drop j doc) \<noteq> frag) \<and>
         fst (jumpToGlobalSnippet openTextDocument positionAt frag files) =
           UniqueMatch m (positionAt doc (int n)) (positionAt doc (int n + int (length frag))))) \<and>
   (2 \<le> length (filter (containsFragment openTextDocument frag) files) \<longrightarrow>
      fst (jumpToGlobalSnippet openTextDocument positionAt frag files) = AmbiguousMatch)"
proof (intro conjI impI allI)
  assume none: "filter (containsFragment openTextDocument frag) files = []"
  have "matchCount (scanFiles openTextDocument positionAt frag files (startScan files)) = 0"
    using scan_none [OF none, of positionAt "startScan files"]
    by (simp add: matchState_def startScan_def)
  then show "fst (jumpToGlobalSnippet openTextDocument positionAt frag files) = NoMatch"
    by (simp add: jumpToGlobalSnippet_def Let_def classify_count)
next
  fix m
  assume one: "filter (containsFragment openTextDocument frag) files = [m]"
  from scan_one [OF one matchCount_startScan, of positionAt files]
  obtain doc where doc: "openTextDocument m = Inr doc" "indexOf doc frag \<noteq> - 1"
    "matchState (scanFiles openTextDocument positionAt frag files (startScan files)) =
       (1, Some m, Some (positionAt doc (indexOf doc frag)),
        Some (positionAt doc (indexOf doc frag + int (length frag))))"
    by blast
  from indexOf_found [OF doc(2)] obtain n where n: "indexOf doc frag = int n"
    "n + length frag \<le> length doc" "take (length frag) (drop n doc) = frag"
    "\<forall>j < n. take (length frag) (drop j doc) \<noteq> frag" by blast
  have "fst (jumpToGlobalSnippet openTextDocument positionAt frag files) =
      UniqueMatch m (positionAt doc (int n)) (positionAt doc (int n + int (length frag)))"
    using doc(3) n(1)
    by (simp add: jumpToGlobalSnippet_def Let_def classify_matchState matchState_printed)
  with doc(1) n(2,3,4)
  show "\<exists>doc n. openTextDocument m = Inr doc \<and> n + length frag \<le> length doc \<and>
         take (length frag) (drop n doc) = frag \<and>
         (\<forall>j < n. take (length frag) (drop j doc) \<noteq> frag) \<and>
         fst (jumpToGlobalSnippet openTextDocument positionAt frag files) =
           UniqueMatch m (positionAt doc (int n)) (positionAt doc (int n + int (length frag)))"
    by blast
next
  assume many: "2 \<le> length (filter (containsFragment openTextDocument frag) files)"
  have "2 \<le> matchCount (scanFiles openTextDocument positionAt frag files (startScan files))"
    using scan_many [OF many matchCount_startScan, of positionAt files] .
  then show "fst (jumpToGlobalSnippet openTextDocument positionAt frag files) = AmbiguousMatch"
    by (simp add: jumpToGlobalSnippet_def Let_def classify_count)
qed


section \<open>Which files are opened\<close>

lemma scan_step_no_match:
  assumes "\<not> containsFragment openTextDocument snip f"
  shows "\<exists>p. scanFiles openTextDocument positionAt snip (f # fs) s =
           scanFiles openTextDocument positionAt snip fs
             (s\<lparr>opened := opened s @ [f], printed := p\<rparr>)"
proof (cases "openTextDocument f")
  case (Inl e)
  then show ?thesis by (intro exI [of _ "printed s @ [CannotOpenFile f e]"]) simp
next
  case (Inr doc)
  with assms have "indexOf doc snip = - 1" by (simp add: containsFragment_Inr)
  with Inr show ?thesis by (intro exI [of _ "printed s"]) simp
qed

lemma scan_step_match:
  assumes "containsFragment openTextDocument snip f"
  shows "\<exists>a b. scanFiles openTextDocument positionAt snip (f # fs) s =
           (if matchCount s + 1 > 1
            then s\<lparr>opened := opened s @ [f], matchCount := matchCount s + 1,
                   matchFile := Some f, matchStartPosition := a, matchEndPosition := b\<rparr>
            else scanFiles openTextDocument positionAt snip fs
                  (s\<lparr>opened := opened s @ [f], matchCount := matchCount s + 1,
                     matchFile := Some f, matchStartPosition := a, matchEndPosition := b\<rparr>))"
proof -
  from assms obtain doc where doc: "openTextDocument f = Inr doc"
    by (auto simp: containsFragment_def split: sum.splits)
  with assms have found: "indexOf doc snip \<noteq> - 1" by (simp add: containsFragment_Inr)
  show ?thesis
    using doc found
    by (intro exI [of _ "Some (positionAt doc (indexOf doc snip))"]
        exI [of _ "Some (positionAt doc (indexOf doc snip + int (length snip)))"])
      (simp add: Let_def)
qed

lemma scan_opened_after_first:
  "1 \<le> matchCount s \<Longrightarrow>
     \<exists>n \<le> length files.
       opened (scanFiles openTextDocument positionAt snip files s) = opened s @ take n files \<and>
       (filter (containsFragment openTextDocument snip) files = [] \<longrightarrow> n = length files) \<and>
       (filter (containsFragment openTextDocument snip) files \<noteq> [] \<longrightarrow>
          0 < n \<and> containsFragment openTextDocument snip (files ! (n - 1)) \<and>
          length (filter (containsFragment openTextDocument snip) (take n files)) = 1)"
proof (induction files arbitrary: s)
  case Nil
  show ?case by simp
next
  case (Cons f fs)
  show ?case
  proof (cases "containsFragment openTextDocument snip f")
    case False
    from scan_step_no_match [OF False, of positionAt fs s] obtain p where
      step: "scanFiles openTextDocument positionAt snip (f # fs) s =
        scanFiles openTextDocument positionAt snip fs (s\<lparr>opened := opened s @ [f], printed := p\<rparr>)"
      by blast
    have "1 \<le> matchCount (s\<lparr>opened := opened s @ [f], printed := p\<rparr>)"
      using Cons.prems by simp
    from Cons.IH [OF this] obtain n where n: "n \<le> length fs"
      "opened (scanFiles openTextDocument positionAt snip fs
          (s\<lparr>opened := opened s @ [f], printed := p\<rparr>)) = (opened s @ [f]) @ take n fs"
      "filter (containsFragment openTextDocument snip) fs = [] \<longrightarrow> n = length fs"
      "filter (containsFragment openTextDocument snip) fs \<noteq> [] \<longrightarrow>
          0 < n \<and> containsFragment openTextDocument snip (fs ! (n - 1)) \<and>
          length (filter (containsFragment openTextDocument snip) (take n fs)) = 1"
      by auto
    show ?thesis
      using False step n by (intro exI [of _ "Suc n"]) (auto simp: nth_Cons')
  next
    case True
    from scan_step_match [OF True, of positionAt fs s] Cons.prems obtain a b where
      "scanFiles openTextDocument positionAt snip (f # fs) s =
         s\<lparr>opened := opened s @ [f], matchCount := matchCount s + 1,
           matchFile := Some f, matchStartPosition := a, matchEndPosition := b\<rparr>"
      by auto
    then show ?thesis using True by (intro exI [of _ 1]) simp
  qed
qed

lemma scan_opened:
  "matchCount s = 0 \<Longrightarrow>
     \<exists>n \<le> length files.
       opened (scanFiles openTextDocument positionAt snip files s) = opened s @ take n files \<and>
       (length (filter (containsFragment openTextDocument snip) files) < 2 \<longrightarrow> n = length files) \<and>
       (2 \<le> length (filter (containsFragment openTextDocument snip) files) \<longrightarrow>
          0 < n \<and> containsFragment openTextDocument snip (files ! (n - 1)) \<and>
          length (filter (containsFragment openTextDocument snip) (take n files)) = 2)"
proof (induction files arbitrary: s)
  case Nil
  show ?case by simp
next
  case (Cons f fs)
  show ?case
  proof (cases "containsFragment openTextDocument snip f")
    case False
    from scan_step_no_match [OF False, of positionAt fs s] obtain p where
      step: "scanFiles openTextDocument positionAt snip (f # fs) s =
        scanFiles openTextDocument positionAt snip fs (s\<lparr>opened := opened s @ [f], printed := p\<rparr>)"
      by blast
    have "matchCount (s\<lparr>opened := opened s @ [f], printed := p\<rparr>) = 0"
      using Cons.prems by simp
    from Cons.IH [OF this] obtain n where n: "n \<le> length fs"
      "opened (scanFiles openTextDocument positionAt snip fs
          (s\<lparr>opened := opened s @ [f], printed := p\<rparr>)) = (opened s @ [f]) @ take n fs"
      "length (filter (containsFragment openTextDocument snip) fs) < 2 \<longrightarrow> n = length fs"
      "2 \<le> length (filter (containsFragment openTextDocument snip) fs) \<longrightarrow>
          0 < n \<and> containsFragment openTextDocument snip (fs ! (n - 1)) \<and>
          length (filter (containsFragment openTextDocument snip) (take n fs)) = 2"
      by auto
    show ?thesis
      using False step n by (intro exI [of _ "Suc n"]) (auto simp: nth_Cons')
  next
    case True
    from scan_step_match [OF True, of positionAt fs s] Cons.prems obtain a b where
      step: "scanFiles openTextDocument positionAt snip (f # fs) s =
         scanFiles openTextDocument positionAt snip fs
           (s\<lparr>opened := opened s @ [f], matchCount := matchCount s + 1,
              matchFile := Some f, matchStartPosition := a, matchEndPosition := b\<rparr>)"
      by auto
    have "1 \<le> matchCount (s\<lparr>opened := opened s @ [f], matchCount := matchCount s + 1,
              matchFile := Some f, matchStartPosition := a, matchEndPosition := b\<rparr>)"
      by simp
    from scan_opened_after_first [OF this, of fs openTextDocument positionAt snip] obtain n where n: "n \<le> length fs"
      "opened (scanFiles openTextDocument positionAt snip fs
          (s\<lparr>opened := opened s @ [f], matchCount := matchCount s + 1,
              matchFile := Some f, matchStartPosition := a, matchEndPosition := b\<rparr>)) =
        (opened s @ [f]) @ take n fs"
      "filter (containsFragment openTextDocument snip) fs = [] \<longrightarrow> n = length fs"
      "filter (containsFragment openTextDocument snip) fs \<noteq> [] \<longrightarrow>
          0 < n \<and> containsFragment openTextDocument snip (fs ! (n - 1)) \<and>
          length (filter (containsFragment openTextDocument snip) (take n fs)) = 1"
      by auto
    show ?thesis
      using True step n by (intro exI [of _ "Suc n"]) (auto simp: nth_Cons')
  qed
qed

text \<open>
  C7 (amended). The scan goes through the corpus in the order given and opens each member
  at most once: it opens exactly the first \<open>n\<close> members, one after the other. When fewer
  than two members contain the fragment these are all the members; otherwise the last one
  opened is the second member that contains the fragment, and no member after it is
  opened.
\<close>

theorem jumpToGlobalSnippet_opens_prefix:
  "\<exists>n \<le> length files.
     opened (snd (jumpToGlobalSnippet openTextDocument positionAt frag files)) = take n files \<and>
     (length (filter (containsFragment openTextDocument frag) files) < 2 \<longrightarrow> n = length files) \<and>
     (2 \<le> length (filter (containsFragment openTextDocument frag) files) \<longrightarrow>
        0 < n \<and> containsFragment openTextDocument frag (files ! (n - 1)) \<and>
        length (filter (containsFragment openTextDocument frag) (take n files)) = 2)"
  using scan_opened [OF matchCount_startScan, of files openTextDocument positionAt frag files]
  by (simp add: jumpToGlobalSnippet_def Let_def startScan_def)


section \<open>Files that cannot be opened\<close>

lemma outcome_by_matches:
  "fst (jumpToGlobalSnippet openTextDocument positionAt frag files) =
     (case filter (containsFragment openTextDocument frag) files of
        [] \<Rightarrow> NoMatch
      | [m] \<Rightarrow>
          (case openTextDocument m of
             Inl e \<Rightarrow> NoMatch
           | Inr doc \<Rightarrow>
               UniqueMatch m (positionAt doc (indexOf doc frag))
                 (positionAt doc (indexOf doc frag + int (length frag))))
      | m # m' # ms \<Rightarrow> AmbiguousMatch)"
proof (cases "filter (containsFragment openTextDocument frag) files")
  case Nil
  have "matchCount (scanFiles openTextDocument positionAt frag files (startScan files)) = 0"
    using scan_none [OF Nil, of positionAt "startScan files"]
    by (simp add: matchState_def startScan_def)
  then show ?thesis using Nil by (simp add: jumpToGlobalSnippet_def Let_def classify_count)
next
  case (Cons m ms)
  show ?thesis
  proof (cases ms)
    case Nil
    with Cons have one: "filter (containsFragment openTextDocument frag) files = [m]" by simp
    from scan_one [OF one matchCount_startScan, of positionAt files]
    obtain doc where doc: "openTextDocument m = Inr doc"
      "matchState (scanFiles openTextDocument positionAt frag files (startScan files)) =
         (1, Some m, Some (positionAt doc (indexOf doc frag)),
          Some (positionAt doc (indexOf doc frag + int (length frag))))"
      by blast
    then show ?thesis
      using one
      by (simp add: jumpToGlobalSnippet_def Let_def classify_matchState matchState_printed)
  next
    case (Cons m' ms')
    with \<open>filter (containsFragment openTextDocument frag) files = m # ms\<close>
    have many: "2 \<le> length (filter (containsFragment openTextDocument frag) files)" by simp
    have "2 \<le> matchCount (scanFiles openTextDocument positionAt frag files (startScan files))"
      using scan_many [OF many matchCount_startScan, of positionAt files] .
    then show ?thesis
      using Cons \<open>filter (containsFragment openTextDocument frag) files = m # ms\<close>
      by (simp add: jumpToGlobalSnippet_def Let_def classify_count)
  qed
qed

lemma scan_append:
  "matchCount s + length (filter (containsFragment openTextDocument snip) pre) < 2 \<Longrightarrow>
     scanFiles openTextDocument positionAt snip (pre @ rest) s =
     scanFiles openTextDocument positionAt snip rest
       (scanFiles openTextDocument positionAt snip pre s)"
proof (induction pre arbitrary: s)
  case Nil
  show ?case by simp
next
  case (Cons f fs)
  show ?case
  proof (cases "openTextDocument f")
    case (Inl e)
    then have "\<not> containsFragment openTextDocument snip f" by (rule containsFragment_Inl)
    with Cons.prems Inl show ?thesis by (simp add: Cons.IH)
  next
    case (Inr doc)
    show ?thesis
    proof (cases "indexOf doc snip = - 1")
      case True
      with Inr have "\<not> containsFragment openTextDocument snip f"
        by (simp add: containsFragment_Inr)
      with Cons.prems Inr True show ?thesis by (simp add: Cons.IH)
    next
      case False
      with Inr have "containsFragment openTextDocument snip f"
        by (simp add: containsFragment_Inr)
      with Cons.prems have "matchCount s = 0"
        "filter (containsFragment openTextDocument snip) fs = []" by simp_all
      with Inr False show ?thesis by (simp add: Let_def Cons.IH)
    qed
  qed
qed

lemma scan_printed_grows:
  "set (printed s) \<subseteq> set (printed (scanFiles openTextDocument positionAt snip files s))"
proof (induction files arbitrary: s)
  case Nil
  show ?case by simp
next
  case (Cons f fs)
  show ?case
  proof (cases "openTextDocument f")
    case (Inl e)
    have "set (printed s) \<subseteq>
        set (printed (s\<lparr>opened := opened s @ [f], printed := printed s @ [CannotOpenFile f e]\<rparr>))"
      by auto
    also have "\<dots> \<subseteq> set (printed (scanFiles openTextDocument positionAt snip fs
        (s\<lparr>opened := opened s @ [f], printed := printed s @ [CannotOpenFile f e]\<rparr>)))"
      by (rule Cons.IH)
    finally show ?thesis using Inl by simp
  next
    case (Inr doc)
    then show ?thesis
      using Cons.IH [of "s\<lparr>opened := opened s @ [f]\<rparr>"]
        Cons.IH [of "s\<lparr>opened := opened s @ [f], matchCount := matchCount s + 1,
          matchFile := Some f,
          matchStartPosition := Some (positionAt doc (indexOf doc snip)),
          matchEndPosition := Some (positionAt doc (indexOf doc snip + int (length snip)))\<rparr>"]
      by (auto simp: Let_def)
  qed
qed

text \<open>
  C8. When a member cannot be opened, the loop prints the failure and goes on with the
  remaining members, its match variables untouched; the result of the whole scan is the
  result of the scan of the corpus without that member, and the printed line is in the
  output whenever the scan gets as far as that member.
\<close>

theorem failed_member_skipped:
  assumes "openTextDocument member = Inl e"
  shows "scanFiles openTextDocument positionAt frag (member # files) s =
           scanFiles openTextDocument positionAt frag files
             (s\<lparr>opened := opened s @ [member],
                printed := printed s @ [CannotOpenFile member e]\<rparr>) \<and>
         fst (jumpToGlobalSnippet openTextDocument positionAt frag (pre @ member # post)) =
           fst (jumpToGlobalSnippet openTextDocument positionAt frag (pre @ post)) \<and>
         (length (filter (containsFragment openTextDocument frag) pre) < 2 \<longrightarrow>
            CannotOpenFile member e \<in>
              set (printed (snd (jumpToGlobalSnippet openTextDocument positionAt frag
                (pre @ member # post)))))"
proof (intro conjI impI)
  show "scanFiles openTextDocument positionAt frag (member # files) s =
           scanFiles openTextDocument positionAt frag files
             (s\<lparr>opened := opened s @ [member],
                printed := printed s @ [CannotOpenFile member e]\<rparr>)"
    using assms by simp
next
  have "\<not> containsFragment openTextDocument frag member"
    using assms by (rule containsFragment_Inl)
  then have "filter (containsFragment openTextDocument frag) (pre @ member # post) =
      filter (containsFragment openTextDocument frag) (pre @ post)" by simp
  then show "fst (jumpToGlobalSnippet openTextDocument positionAt frag (pre @ member # post)) =
           fst (jumpToGlobalSnippet openTextDocument positionAt frag (pre @ post))"
    by (simp only: outcome_by_matches)
next
  assume few: "length (filter (containsFragment openTextDocument frag) pre) < 2"
  let ?s0 = "startScan (pre @ member # post)"
  let ?s1 = "scanFiles openTextDocument positionAt frag pre ?s0"
  let ?s2 = "?s1\<lparr>opened := opened ?s1 @ [member],
                printed := printed ?s1 @ [CannotOpenFile member e]\<rparr>"
  have "matchCount ?s0 + length (filter (containsFragment openTextDocument frag) pre) < 2"
    using few by (simp add: startScan_def)
  then have "scanFiles openTextDocument positionAt frag (pre @ member # post) ?s0 =
      scanFiles openTextDocument positionAt frag (member # post) ?s1"
    by (rule scan_append)
  also have "\<dots> = scanFiles openTextDocument positionAt frag post ?s2"
    using assms by simp
  finally have eq: "scanFiles openTextDocument positionAt frag (pre @ member # post) ?s0 =
      scanFiles openTextDocument positionAt frag post ?s2" .
  have "CannotOpenFile member e \<in> set (printed ?s2)" by simp
  then have "CannotOpenFile member e \<in>
      set (printed (scanFiles openTextDocument positionAt frag post ?s2))"
    using scan_printed_grows [of ?s2 openTextDocument positionAt frag post] by blast
  then show "CannotOpenFile member e \<in>
      set (printed (snd (jumpToGlobalSnippet openTextDocument positionAt frag
        (pre @ member # post))))"
    by (simp add: jumpToGlobalSnippet_def Let_def eq)
qed


section \<open>The scan on the sample workspace\<close>

lemma sample_contains:
  "containsFragment sampleWorkspace ''foo()'' ''a.ts''"
  "containsFragment sampleWorkspace ''foo()'' ''b.ts''"
  "\<not> containsFragment sampleWorkspace ''foo()'' ''c.ts''"
  "\<not> containsFragment sampleWorkspace ''foo()'' ''gone.ts''"
  by (simp_all add: containsFragment_def sampleWorkspace_def indexOf_sublist [symmetric]
      indexOf_def)

theorem jumpToGlobalSnippet_classifies_witness:
  "filter (containsFragment sampleWorkspace ''foo()'') [''c.ts'', ''gone.ts''] = [] \<and>
   fst (jumpToGlobalSnippet sampleWorkspace offsetPosition ''foo()'' [''c.ts'', ''gone.ts'']) =
     NoMatch \<and>
   filter (containsFragment sampleWorkspace ''foo()'') [''gone.ts'', ''a.ts'', ''c.ts''] =
     [''a.ts''] \<and>
   fst (jumpToGlobalSnippet sampleWorkspace offsetPosition ''foo()''
     [''gone.ts'', ''a.ts'', ''c.ts'']) = UniqueMatch ''a.ts'' 8 13 \<and>
   2 \<le> length (filter (containsFragment sampleWorkspace ''foo()'') [''a.ts'', ''b.ts'', ''c.ts'']) \<and>
   fst (jumpToGlobalSnippet sampleWorkspace offsetPosition ''foo()''
     [''a.ts'', ''b.ts'', ''c.ts'']) = AmbiguousMatch"
proof -
  have h0: "filter (containsFragment sampleWorkspace ''foo()'') [''c.ts'', ''gone.ts''] = []"
    and h1: "filter (containsFragment sampleWorkspace ''foo()'') [''gone.ts'', ''a.ts'', ''c.ts''] =
      [''a.ts'']"
    and h2: "2 \<le> length (filter (containsFragment sampleWorkspace ''foo()'')
      [''a.ts'', ''b.ts'', ''c.ts''])"
    by (simp_all add: sample_contains)
  have u: "fst (jumpToGlobalSnippet sampleWorkspace offsetPosition ''foo()''
     [''gone.ts'', ''a.ts'', ''c.ts'']) = UniqueMatch ''a.ts'' 8 13"
    by (simp add: jumpToGlobalSnippet_def startScan_def classify_def sampleWorkspace_def
        indexOf_def offsetPosition_def Let_def)
  show ?thesis
    using h0 h1 h2 u
      jumpToGlobalSnippet_classifies [of sampleWorkspace "''foo()''" "[''c.ts'', ''gone.ts'']"
        offsetPosition]
      jumpToGlobalSnippet_classifies [of sampleWorkspace "''foo()''"
        "[''a.ts'', ''b.ts'', ''c.ts'']" offsetPosition]
      jumpToGlobalSnippet_classifies [of sampleWorkspace "''foo()''"
        "[''gone.ts'', ''a.ts'', ''c.ts'']" offsetPosition]
    by simp
qed

theorem jumpToGlobalSnippet_opens_prefix_witness:
  "2 \<le> length (filter (containsFragment sampleWorkspace ''foo()'') [''a.ts'', ''b.ts'', ''c.ts'']) \<and>
   length (filter (containsFragment sampleWorkspace ''foo()'') [''gone.ts'', ''a.ts'', ''c.ts'']) < 2 \<and>
   opened (snd (jumpToGlobalSnippet sampleWorkspace offsetPosition ''foo()''
     [''gone.ts'', ''a.ts'', ''c.ts''])) = [''gone.ts'', ''a.ts'', ''c.ts'']"
proof -
  have h1: "length (filter (containsFragment sampleWorkspace ''foo()'')
      [''gone.ts'', ''a.ts'', ''c.ts'']) < 2"
    and h2: "2 \<le> length (filter (containsFragment sampleWorkspace ''foo()'')
      [''a.ts'', ''b.ts'', ''c.ts''])"
    by (simp_all add: sample_contains)
  show ?thesis
    using h1 h2
      jumpToGlobalSnippet_opens_prefix [of "[''gone.ts'', ''a.ts'', ''c.ts'']" sampleWorkspace
        offsetPosition "''foo()''"]
    by auto
qed

text \<open>
  C7 as stated says that every member of the corpus is opened exactly once. With the
  fragment in the first two of three files, the third is never opened.
\<close>

theorem jumpToGlobalSnippet_stops_early_counterexample:
  "opened (snd (jumpToGlobalSnippet sampleWorkspace offsetPosition ''foo()''
     [''a.ts'', ''b.ts'', ''c.ts''])) = [''a.ts'', ''b.ts'']"
  by (simp add: jumpToGlobalSnippet_def startScan_def sampleWorkspace_def indexOf_def
      offsetPosition_def Let_def)

theorem failed_member_skipped_witness:
  "sampleWorkspace ''gone.ts'' = Inl IOError \<and>
   fst (jumpToGlobalSnippet sampleWorkspace offsetPosition ''foo()'' [''gone.ts'', ''a.ts'']) =
     fst (jumpToGlobalSnippet sampleWorkspace offsetPosition ''foo()'' [''a.ts'']) \<and>
   CannotOpenFile ''gone.ts'' IOError \<in>
     set (printed (snd (jumpToGlobalSnippet sampleWorkspace offsetPosition ''foo()''
       [''gone.ts'', ''a.ts''])))"
proof -
  have h: "sampleWorkspace ''gone.ts'' = Inl IOError" by (simp add: sampleWorkspace_def)
  show ?thesis
    using h failed_member_skipped [where openTextDocument = sampleWorkspace
        and member = "''gone.ts''" and e = IOError and positionAt = offsetPosition
        and frag = "''foo()''" and files = "[''a.ts'']"
        and s = "startScan [''gone.ts'', ''a.ts'']" and pre = "[]" and post = "[''a.ts'']"]
    by simp
qed

section \<open>The JSON round trip\<close>

lemma hexValue_hexDigit: "n < 16 \<Longrightarrow> hexValue (hexDigit n) = Some n"
proof -
  assume n: "n < 16"
  have "\<forall>k \<in> set [0..<16]. hexValue (hexDigit k) = Some k"
    by code_simp
  with n show ?thesis by simp
qed

lemma hexValue_zero: "hexValue (CHR ''0'') = Some 0"
  by (simp add: hexValue_def)

lemma parseChars_control:
  assumes "(of_char c :: nat) < 32"
  shows "parseChars (CHR 0x5C # CHR ''u'' # CHR ''0'' # CHR ''0'' #
           hexDigit (of_char c div 16) # hexDigit (of_char c mod 16) # rest) =
         consChar c (parseChars rest)"
proof -
  have a: "hexValue (hexDigit (of_char c div 16)) = Some (of_char c div 16)"
    using assms by (intro hexValue_hexDigit) simp
  have b: "hexValue (hexDigit (of_char c mod 16)) = Some (of_char c mod 16)"
    by (intro hexValue_hexDigit) simp
  have "char_of (16 * (of_char c div 16) + of_char c mod 16 :: nat) = c" by simp
  then show ?thesis by (simp add: a b hexValue_zero)
qed

lemma parseChars_quoteChar: "parseChars (quoteChar c @ rest) = consChar c (parseChars rest)"
proof (cases "(of_char c :: nat) < 32")
  case True
  then have "c \<noteq> CHR 0x22" "c \<noteq> CHR 0x5C" by auto
  with True show ?thesis
    using parseChars_control [OF True, of rest] by (simp add: quoteChar_def unescape_def)
next
  case False
  then have "c \<noteq> CHR 0x08" "c \<noteq> CHR 0x0C" "c \<noteq> CHR 0x0A" "c \<noteq> CHR 0x0D" "c \<noteq> CHR 0x09"
    by auto
  with False show ?thesis by (simp add: quoteChar_def unescape_def)
qed

lemma parseChars_quoted:
  "parseChars (concat (map quoteChar s) @ CHR 0x22 # rest) = Some (s, rest)"
proof (induction s)
  case Nil
  show ?case by simp
next
  case (Cons c s)
  have "parseChars (concat (map quoteChar (c # s)) @ CHR 0x22 # rest) =
      parseChars (quoteChar c @ (concat (map quoteChar s) @ CHR 0x22 # rest))" by simp
  also have "\<dots> = consChar c (parseChars (concat (map quoteChar s) @ CHR 0x22 # rest))"
    by (rule parseChars_quoteChar)
  also have "\<dots> = Some (c # s, rest)" by (simp add: Cons.IH consChar_def)
  finally show ?case .
qed

lemma parseString_quoted: "parseString (quoteJSONString s @ rest) = Some (s, rest)"
  by (simp add: parseString_def quoteJSONString_def parseChars_quoted)

lemma skipWhitespace_Cons:
  "skipWhitespace (c # x) = (if isWhitespace c then skipWhitespace x else c # x)"
  by (simp add: skipWhitespace_def)

lemma skipWhitespace_Nil: "skipWhitespace [] = []"
  by (simp add: skipWhitespace_def)


lemma skipWhitespace_quoted: "skipWhitespace (quoteJSONString s @ rest) = quoteJSONString s @ rest"
  by (simp add: quoteJSONString_def skipWhitespace_Cons isWhitespace_def)

lemma serializeProperty_append:
  "serializeProperty p @ rest =
     quoteJSONString (fst p) @ CHR '':'' # CHR 0x20 # quoteJSONString (snd p) @ rest"
  by (simp add: serializeProperty_def)

lemma joinWith_Cons:
  "joinWith sep (x # xs) = (if xs = [] then x else x @ sep @ joinWith sep xs)"
  by (cases xs) simp_all

lemma members_start:
  "ps \<noteq> [] \<Longrightarrow>
     \<exists>y. joinWith sep (map serializeProperty ps) @ rest = CHR 0x22 # y"
  by (cases ps) (auto simp: joinWith_Cons serializeProperty_def quoteJSONString_def)

lemma parseMembers_one:
  assumes "skipWhitespace tail = CHR ''}'' # rest"
  shows "parseMembers (serializeProperty p @ tail) = Some ([p], rest)"
  by (subst parseMembers.simps)
    (simp add: serializeProperty_append parseString_quoted skipWhitespace_Cons isWhitespace_def
      skipWhitespace_quoted assms)

lemma parseMembers_more:
  assumes "skipWhitespace tail = CHR '','' # tail'"
    and "parseMembers (skipWhitespace tail') = Some (ps, rest)"
  shows "parseMembers (serializeProperty p @ tail) = Some (p # ps, rest)"
  by (subst parseMembers.simps)
    (simp add: serializeProperty_append parseString_quoted skipWhitespace_Cons isWhitespace_def
      skipWhitespace_quoted assms)

lemma parseMembers_serialized:
  "ps \<noteq> [] \<Longrightarrow>
     parseMembers (joinWith ('','' @ [CHR 0x0A] @ ''    '') (map serializeProperty ps) @
       CHR 0x0A # ''  }'' @ rest) = Some (ps, rest)"
proof (induction ps rule: list_nonempty_induct)
  case (single p)
  have "skipWhitespace (CHR 0x0A # ''  }'' @ rest) = CHR ''}'' # rest"
    by (simp add: skipWhitespace_Cons isWhitespace_def)
  then show ?case using parseMembers_one [of "CHR 0x0A # ''  }'' @ rest" rest p] by simp
next
  case (cons p ps)
  let ?sep = "'','' @ [CHR 0x0A] @ ''    ''"
  let ?more = "joinWith ?sep (map serializeProperty ps) @ CHR 0x0A # ''  }'' @ rest"
  from cons.hyps obtain y where y: "?more = CHR 0x22 # y"
    using members_start [of ps ?sep "CHR 0x0A # ''  }'' @ rest"] by auto
  have a: "skipWhitespace (?sep @ ?more) = CHR '','' # ([CHR 0x0A] @ ''    '' @ ?more)"
    by (simp add: skipWhitespace_Cons isWhitespace_def)
  have "skipWhitespace ([CHR 0x0A] @ ''    '' @ ?more) = skipWhitespace ?more"
    by (simp add: skipWhitespace_Cons isWhitespace_def)
  also have "\<dots> = ?more" by (simp only: y skipWhitespace_Cons) (simp add: isWhitespace_def)
  finally have b: "parseMembers (skipWhitespace ([CHR 0x0A] @ ''    '' @ ?more)) = Some (ps, rest)"
    using cons.IH by simp
  have "joinWith ?sep (map serializeProperty (p # ps)) @ CHR 0x0A # ''  }'' @ rest =
      serializeProperty p @ (?sep @ ?more)"
    using cons.hyps by (simp add: joinWith_Cons)
  then show ?case using parseMembers_more [OF a b, of p] by simp
qed


lemma properties_nonempty: "properties r \<noteq> []"
  by (simp add: properties_def)

lemma parseObject_serialized:
  "parseObject (serializeObject r @ rest) = Some (properties r, rest)"
proof -
  let ?sep = "'','' @ [CHR 0x0A] @ ''    ''"
  let ?members = "joinWith ?sep (map serializeProperty (properties r)) @ CHR 0x0A # ''  }'' @ rest"
  obtain y where y: "?members = CHR 0x22 # y"
    using members_start [OF properties_nonempty, of ?sep r "CHR 0x0A # ''  }'' @ rest"] by auto
  have obj: "serializeObject r @ rest = CHR ''{'' # CHR 0x0A # ''    '' @ ?members"
    by (simp add: serializeObject_def)
  have "skipWhitespace (CHR 0x0A # ''    '' @ ?members) = skipWhitespace ?members"
    by (simp add: skipWhitespace_Cons isWhitespace_def)
  also have "\<dots> = CHR 0x22 # y"
    by (simp only: y skipWhitespace_Cons) (simp add: isWhitespace_def)
  finally have sk: "skipWhitespace (CHR 0x0A # ''    '' @ ?members) = CHR 0x22 # y" .
  have "parseMembers (CHR 0x22 # y) = Some (properties r, rest)"
    using parseMembers_serialized [OF properties_nonempty, of r rest] y by simp
  then show ?thesis
    by (simp only: obj parseObject_def list.case sk) simp
qed

lemma typeOfName_typeName: "typeOfName (typeName t) = Some t"
  by (cases t) (simp_all add: typeOfName_def typeName_def)

lemma toReferenceItem_properties: "toReferenceItem (properties r) = Some r"
proof (cases r)
  case (fields i t ti fp sn co ca ua)
  show ?thesis
  proof (cases fp; cases sn; cases co)
  qed (simp_all add: fields toReferenceItem_def properties_def optionalProperty_def
      typeOfName_typeName)
qed

lemma elements_start:
  "rs \<noteq> [] \<Longrightarrow> \<exists>y. joinWith sep (map serializeObject rs) @ rest = CHR ''{'' # y"
  by (cases rs) (auto simp: joinWith_Cons serializeObject_def)

lemma parseElements_one:
  assumes "skipWhitespace tail = CHR '']'' # rest"
  shows "parseElements (serializeObject r @ tail) = Some ([r], rest)"
  by (subst parseElements.simps)
    (simp add: parseObject_serialized toReferenceItem_properties assms)

lemma parseElements_more:
  assumes "skipWhitespace tail = CHR '','' # tail'"
    and "parseElements (skipWhitespace tail') = Some (rs, rest)"
  shows "parseElements (serializeObject r @ tail) = Some (r # rs, rest)"
  by (subst parseElements.simps)
    (simp add: parseObject_serialized toReferenceItem_properties assms)

lemma parseElements_serialized:
  "rs \<noteq> [] \<Longrightarrow>
     parseElements (joinWith ('','' @ [CHR 0x0A] @ ''  '') (map serializeObject rs) @
       CHR 0x0A # '']'' @ rest) = Some (rs, rest)"
proof (induction rs rule: list_nonempty_induct)
  case (single r)
  have "skipWhitespace (CHR 0x0A # '']'' @ rest) = CHR '']'' # rest"
    by (simp add: skipWhitespace_Cons isWhitespace_def)
  then show ?case using parseElements_one [of "CHR 0x0A # '']'' @ rest" rest r] by simp
next
  case (cons r rs)
  let ?sep = "'','' @ [CHR 0x0A] @ ''  ''"
  let ?more = "joinWith ?sep (map serializeObject rs) @ CHR 0x0A # '']'' @ rest"
  from cons.hyps obtain y where y: "?more = CHR ''{'' # y"
    using elements_start [of rs ?sep "CHR 0x0A # '']'' @ rest"] by auto
  have a: "skipWhitespace (?sep @ ?more) = CHR '','' # ([CHR 0x0A] @ ''  '' @ ?more)"
    by (simp add: skipWhitespace_Cons isWhitespace_def)
  have "skipWhitespace ([CHR 0x0A] @ ''  '' @ ?more) = skipWhitespace ?more"
    by (simp add: skipWhitespace_Cons isWhitespace_def)
  also have "\<dots> = ?more" by (simp only: y skipWhitespace_Cons) (simp add: isWhitespace_def)
  finally have b: "parseElements (skipWhitespace ([CHR 0x0A] @ ''  '' @ ?more)) = Some (rs, rest)"
    using cons.IH by simp
  have "joinWith ?sep (map serializeObject (r # rs)) @ CHR 0x0A # '']'' @ rest =
      serializeObject r @ (?sep @ ?more)"
    using cons.hyps by (simp add: joinWith_Cons)
  then show ?case using parseElements_more [OF a b, of r] by simp
qed

lemma JSON_roundtrip: "JSON_parse (JSON_stringify rs) = Inr rs"
proof (cases "rs = []")
  case True
  then show ?thesis
    by (simp add: JSON_parse_def JSON_stringify_def skipWhitespace_Cons skipWhitespace_Nil
        isWhitespace_def)
next
  case False
  let ?sep = "'','' @ [CHR 0x0A] @ ''  ''"
  let ?elems = "joinWith ?sep (map serializeObject rs) @ CHR 0x0A # '']''"
  from False obtain y where y: "?elems = CHR ''{'' # y"
    using elements_start [of rs ?sep "CHR 0x0A # '']''"] by auto
  have doc: "JSON_stringify rs = CHR ''['' # CHR 0x0A # ''  '' @ ?elems"
    using False by (simp add: JSON_stringify_def)
  have s0: "skipWhitespace (CHR ''['' # CHR 0x0A # ''  '' @ ?elems) =
      CHR ''['' # CHR 0x0A # ''  '' @ ?elems"
    by (simp add: skipWhitespace_Cons isWhitespace_def)
  have "skipWhitespace (CHR 0x0A # ''  '' @ ?elems) = skipWhitespace ?elems"
    by (simp add: skipWhitespace_Cons isWhitespace_def)
  also have "\<dots> = CHR ''{'' # y"
    by (simp only: y skipWhitespace_Cons) (simp add: isWhitespace_def)
  finally have s1: "skipWhitespace (CHR 0x0A # ''  '' @ ?elems) = CHR ''{'' # y" .
  have "parseElements (CHR ''{'' # y) = Some (rs, [])"
    using parseElements_serialized [OF False, of "[]"] y by simp
  then show ?thesis
    by (simp only: doc JSON_parse_def s0 list.case s1) (simp add: skipWhitespace_Nil)
qed

section \<open>Saving and loading again\<close>

lemma saveReferences_access:
  "writable (storage (saveReferences stringify st)) = writable (storage st) \<and>
   readable (storage (saveReferences stringify st)) = readable (storage st)"
  by (simp add: saveReferences_def writeFileSync_def)

lemma applyOperation_access:
  "writable (storage (applyOperation stringify op st)) = writable (storage st) \<and>
   readable (storage (applyOperation stringify op st)) = readable (storage st)"
  by (cases op)
    (simp_all add: addReference_def Let_def deleteReference_def updateReferenceTitle_def
      updateOrder_def saveReferences_access split: option.splits)

lemma applyOperations_access:
  "writable (storage (applyOperations stringify ops st)) = writable (storage st) \<and>
   readable (storage (applyOperations stringify ops st)) = readable (storage st)"
  unfolding applyOperations_def
  by (induction ops arbitrary: st) (simp_all add: applyOperation_access)

lemma items_assignParsed: "items (assignParsed vals st) = vals"
  by (auto simp: items_def assignParsed_def intro: nth_equalityI)

lemma loadReferences_reads:
  assumes "content d = Some data" "readable d" "parse data = Inr vals"
  shows "items (loadReferences parse (initialStore d)) = vals"
  using assms
  by (simp add: loadReferences_def loadBody_def existsSync_def readFileSync_def
      initialStore_def items_assignParsed)

text \<open>
  C3. After any sequence of add, delete, rename and reorder operations, serializing the
  collection and deserializing the result gives the collection back: the same records
  with the same ids, kinds and field values, in the same order. Through the file: once
  \<^verbatim>\<open>saveReferences\<close> has written it and \<^verbatim>\<open>loadReferences\<close> reads it into a new
  store (the file can be written and read), the new store holds the same collection.
\<close>

theorem save_then_load_roundtrip:
  "JSON_parse (JSON_stringify (items (applyOperations JSON_stringify ops st))) =
     Inr (items (applyOperations JSON_stringify ops st)) \<and>
   (writable (storage st) \<and> readable (storage st) \<longrightarrow>
      items (loadReferences JSON_parse (initialStore
        (storage (saveReferences JSON_stringify (applyOperations JSON_stringify ops st))))) =
      items (applyOperations JSON_stringify ops st))"
proof (intro conjI impI)
  show "JSON_parse (JSON_stringify (items (applyOperations JSON_stringify ops st))) =
     Inr (items (applyOperations JSON_stringify ops st))"
    by (rule JSON_roundtrip)
next
  assume access: "writable (storage st) \<and> readable (storage st)"
  let ?st = "applyOperations JSON_stringify ops st"
  have w: "writable (storage ?st)" and r: "readable (storage ?st)"
    using access by (simp_all add: applyOperations_access)
  have c: "content (storage (saveReferences JSON_stringify ?st)) =
      Some (JSON_stringify (items ?st))"
    using w by (simp add: saveReferences_writable)
  have r': "readable (storage (saveReferences JSON_stringify ?st))"
    using r by (simp add: saveReferences_access)
  show "items (loadReferences JSON_parse
      (initialStore (storage (saveReferences JSON_stringify ?st)))) = items ?st"
    using c r' JSON_roundtrip by (rule loadReferences_reads)
qed

theorem save_then_load_roundtrip_witness:
  "writable (storage sampleStore) \<and> readable (storage sampleStore) \<and>
   items (applyOperations JSON_stringify sampleOperations sampleStore) =
     [itemA\<lparr>title := ''main'', updatedAt := ''t9''\<rparr>,
      \<lparr>id' = ''ref-42-k3x'', type' = File, title = ''a.ts'', filePath = Some ''/w/a.ts'',
       snippet = None, comment = None, createdAt = ''t9'', updatedAt = ''t9''\<rparr>] \<and>
   items (loadReferences JSON_parse (initialStore (storage (saveReferences JSON_stringify
       (applyOperations JSON_stringify sampleOperations sampleStore))))) =
     [itemA\<lparr>title := ''main'', updatedAt := ''t9''\<rparr>,
      \<lparr>id' = ''ref-42-k3x'', type' = File, title = ''a.ts'', filePath = Some ''/w/a.ts'',
       snippet = None, comment = None, createdAt = ''t9'', updatedAt = ''t9''\<rparr>]"
proof -
  have h: "writable (storage sampleStore) \<and> readable (storage sampleStore)"
    by (simp add: sampleStore_def noFile_def)
  have "generateId sampleEnv = ''ref-42-k3x''"
    by (simp add: generateId_def sampleEnv_def decimal.simps)
  then have v: "items (applyOperations JSON_stringify sampleOperations sampleStore) =
     [itemA\<lparr>title := ''main'', updatedAt := ''t9''\<rparr>,
      \<lparr>id' = ''ref-42-k3x'', type' = File, title = ''a.ts'', filePath = Some ''/w/a.ts'',
       snippet = None, comment = None, createdAt = ''t9'', updatedAt = ''t9''\<rparr>]"
    by (simp add: applyOperations_def sampleOperations_def addReference_def Let_def
        updateOrder_def updateReferenceTitle_def deleteReference_def findById_def newAddr_def
        saveReferences_references saveReferences_objects items_def sampleStore_def
        sampleObjects_def sampleEnv_def sampleInput_def itemA_def itemB_def)
  show ?thesis
    using h v save_then_load_roundtrip [of sampleOperations sampleStore] by simp
qed

section \<open>Loading\<close>




end
